theory Spec2Isabelle
  imports
    Complex_Main
    "HOL-Library.AList"
    "HOL-Library.Char_ord"
    "HOL-Library.List_Lexorder"
    "HOL-Library.Product_Lexorder"
    "HOL-Library.Log_Nat"
    "HOL-Library.Transitive_Closure_Table"
begin

section \<open>Data model\<close>

text \<open>
  The program keeps one dictionary \<^verbatim>\<open>graph\<close> that maps every place to the dictionary of its
  neighbours and their distances. Python dictionaries keep insertion order, and the program
  depends on it (\<^verbatim>\<open>select_place\<close> numbers the keys, the relaxation loop walks
  \<^verbatim>\<open>items()\<close>), so a dictionary is an association list; \<^const>\<open>map_of\<close> is the lookup,
  \<^const>\<open>AList.update\<close> the assignment \<^verbatim>\<open>d[k] = v\<close> (in place for a known key, appended
  for a new one) and \<^const>\<open>AList.delete\<close> is \<^verbatim>\<open>del d[k]\<close> on a known key.

  The distance of a route is a Python number: a float, an IEEE double, when the user has
  typed it (\<^verbatim>\<open>float(input(...))\<close>), an int in the seed graph of \<^verbatim>\<open>main\<close>. It is modelled by
  its value, a real; \<^verbatim>\<open>nan\<close> and an infinite distance of a route are outside the model.
\<close>

type_synonym place = string

type_synonym neighbors = "(place \<times> real) list"

type_synonym graph = "(place \<times> neighbors) list"

text \<open>
  The distances that the query computes are doubles: the finite ones and the two infinities.
  \<open>Infinity\<close> is \<^verbatim>\<open>float('inf')\<close>, which the query gives to every place at its start and which
  a sum beyond the largest double yields; \<open>NegInfinity\<close> is what a sum below the least double
  yields. The order is the one in which Python compares them.
\<close>

datatype dist = NegInfinity | Fin real | Infinity

instantiation dist :: linorder
begin

fun less_eq_dist :: "dist \<Rightarrow> dist \<Rightarrow> bool" where
  "less_eq_dist NegInfinity b = True"
| "less_eq_dist (Fin x) NegInfinity = False"
| "less_eq_dist (Fin x) (Fin y) = (x \<le> y)"
| "less_eq_dist (Fin x) Infinity = True"
| "less_eq_dist Infinity NegInfinity = False"
| "less_eq_dist Infinity (Fin y) = False"
| "less_eq_dist Infinity Infinity = True"

definition less_dist :: "dist \<Rightarrow> dist \<Rightarrow> bool" where
  "less_dist a b = (a \<le> b \<and> \<not> b \<le> a)"

instance
proof
  fix x y z :: dist
  show "(x < y) = (x \<le> y \<and> \<not> y \<le> x)" by (rule less_dist_def)
  show "x \<le> x" by (cases x) simp_all
  show "x \<le> y \<Longrightarrow> y \<le> z \<Longrightarrow> x \<le> z" by (cases x; cases y; cases z) simp_all
  show "x \<le> y \<Longrightarrow> y \<le> x \<Longrightarrow> x = y" by (cases x; cases y) simp_all
  show "x \<le> y \<or> y \<le> x" by (cases x; cases y) auto
qed

end

datatype error = KeyError

text \<open>The keys of a dictionary, in insertion order.\<close>

definition keys :: "('k \<times> 'v) list \<Rightarrow> 'k list" where
  "keys d = map fst d"

section \<open>The sum of two distances\<close>

text \<open>
  Python adds two floats as IEEE arithmetic does: the result is the double nearest to the
  exact sum, the one with the even significand when two are equally near, and an infinity
  when the rounded magnitude exceeds the largest double.

  Every finite double is a whole multiple of \<^verbatim>\<open>2**-1074\<close>, the least positive double, and
  magnitudes are counted in this unit below. The doubles of magnitude below \<^verbatim>\<open>2**53\<close> units
  are one unit apart (these are the subnormal doubles and the normal ones of the least
  exponent); from \<^verbatim>\<open>2**(52+s)\<close> to \<^verbatim>\<open>2**(53+s)\<close> units they are \<^verbatim>\<open>2**s\<close> units apart,
  since a significand has 53 bits. The largest double is \<^verbatim>\<open>(2**53 - 1) * 2**2045\<close> units,
  so a magnitude that rounds to \<^verbatim>\<open>2**2098\<close> units or more overflows.
\<close>

text \<open>The integer nearest to \<open>z\<close>, the even one of two.\<close>

definition round_half_even :: "real \<Rightarrow> int" where
  "round_half_even z =
     (let q = \<lfloor>z\<rfloor>; r = z - of_int q in
      if 2 * r < 1 \<or> (2 * r = 1 \<and> even q) then q else q + 1)"

text \<open>The doubles around the magnitude of \<open>y\<close> units are \<open>2 ^ ulp_exponent y\<close> units apart.\<close>

definition ulp_exponent :: "real \<Rightarrow> nat" where
  "ulp_exponent y = nat (bitlen \<lfloor>y\<rfloor> - 53)"

text \<open>The magnitude of \<open>y\<close> units, rounded to the spacing of the doubles around it.\<close>

definition round_units :: "real \<Rightarrow> int" where
  "round_units y = round_half_even (y / 2 ^ ulp_exponent y) * 2 ^ ulp_exponent y"

text \<open>The double nearest to the real \<open>x\<close>.\<close>

definition round_double :: "real \<Rightarrow> dist" where
  "round_double x =
     (let m = round_units (\<bar>x\<bar> * 2 ^ 1074) in
      if 2 ^ 2098 \<le> m then (if x < 0 then NegInfinity else Infinity)
      else Fin (sgn x * of_int m / 2 ^ 1074))"

text \<open>
  \<^verbatim>\<open>current_distance + weight\<close>. The weight is finite, so the sum of an infinity and the
  weight is that infinity and no sum is \<^verbatim>\<open>nan\<close>. Python adds two ints exactly, as it does
  in a query on the seed graph; rounding their sum changes nothing as long as it is below
  \<^verbatim>\<open>2**53\<close>, and the sums of the seed's distances are far below.
\<close>

fun add_weight :: "dist \<Rightarrow> real \<Rightarrow> dist" where
  "add_weight (Fin d) w = round_double (d + w)"
| "add_weight Infinity w = Infinity"
| "add_weight NegInfinity w = NegInfinity"

text \<open>The values of \<^typ>\<open>dist\<close> that are doubles: rounding leaves them as they are.\<close>

fun representable :: "dist \<Rightarrow> bool" where
  "representable (Fin x) = (round_double x = Fin x)"
| "representable Infinity = True"
| "representable NegInfinity = True"

section \<open>The priority queue\<close>

text \<open>
  \<^verbatim>\<open>heapq\<close> is Python's standard library, not code of this program. It is modelled by its
  contract: the queue holds a collection of tuples, \<^verbatim>\<open>heappush\<close> adds one and
  \<^verbatim>\<open>heappop\<close> removes and returns the least one. Tuples \<^verbatim>\<open>(distance, place)\<close> compare
  lexicographically and places compare as strings, character by character; this is the order
  of \<^typ>\<open>dist \<times> string\<close>. The order is total, so the least tuple is determined and the
  layout of the heap array cannot be observed.
\<close>

type_synonym pqueue = "(dist \<times> place) list"

definition heappush :: "pqueue \<Rightarrow> dist \<times> place \<Rightarrow> pqueue" where
  "heappush q x = x # q"

definition heappop :: "pqueue \<Rightarrow> (dist \<times> place) \<times> pqueue" where
  "heappop q = (let m = min_list q in (m, remove1 m q))"

section \<open>The shortest-path query\<close>

record state =
  queue :: pqueue
  distances :: "place \<rightharpoonup> dist"
  previous_nodes :: "place \<rightharpoonup> place option"

text \<open>
  The \<^verbatim>\<open>for neighbor, weight in graph[current_node].items()\<close> loop. Reading
  \<^verbatim>\<open>distances[neighbor]\<close> for a neighbour that is no key of the graph raises \<^verbatim>\<open>KeyError\<close>.
\<close>

fun relax_all :: "dist \<Rightarrow> place \<Rightarrow> neighbors \<Rightarrow> state \<Rightarrow> error + state" where
  "relax_all current_distance current_node [] s = Inr s"
| "relax_all current_distance current_node ((neighbor, weight) # rest) s =
     (let distance = add_weight current_distance weight in
      case distances s neighbor of
        None \<Rightarrow> Inl KeyError
      | Some dn \<Rightarrow>
          if distance < dn then
            relax_all current_distance current_node rest
              (s\<lparr>distances := (distances s)(neighbor \<mapsto> distance),
                 previous_nodes := (previous_nodes s)(neighbor \<mapsto> Some current_node),
                 queue := heappush (queue s) (distance, neighbor)\<rparr>)
          else relax_all current_distance current_node rest s)"

text \<open>
  One round of \<^verbatim>\<open>while queue:\<close> on a non-empty queue: pop, skip a stale entry
  (\<^verbatim>\<open>continue\<close>), otherwise relax every neighbour of the popped place.
\<close>

definition loop_body :: "graph \<Rightarrow> state \<Rightarrow> error + state" where
  "loop_body g s =
     (case heappop (queue s) of
        ((current_distance, current_node), q) \<Rightarrow>
          (case distances s current_node of
             None \<Rightarrow> Inl KeyError
           | Some dc \<Rightarrow>
               if current_distance > dc then Inr (s\<lparr>queue := q\<rparr>)
               else (case map_of g current_node of
                       None \<Rightarrow> Inl KeyError
                     | Some nbrs \<Rightarrow>
                         relax_all current_distance current_node nbrs (s\<lparr>queue := q\<rparr>))))"

text \<open>
  The \<^verbatim>\<open>while queue:\<close> loop. Nothing in the loop itself bounds the number of its rounds,
  so it is a partial function: \<open>None\<close> is a run that never returns, and that a run returns
  is proved below.
\<close>

partial_function (option) main_loop :: "graph \<Rightarrow> state \<Rightarrow> (error + state) option" where
  "main_loop g s =
     (if queue s = [] then Some (Inr s)
      else (case loop_body g s of
              Inl e \<Rightarrow> Some (Inl e)
            | Inr s' \<Rightarrow> main_loop g s'))"

text \<open>
  The \<^verbatim>\<open>while current is not None:\<close> loop that walks the predecessors back from the
  destination, appending each place. It follows \<^verbatim>\<open>previous_nodes\<close> blindly and is partial
  too.
\<close>

partial_function (option) walk_back ::
    "(place \<rightharpoonup> place option) \<Rightarrow> place option \<Rightarrow> place list \<Rightarrow> (error + place list) option" where
  "walk_back prev current shortest_path =
     (case current of
        None \<Rightarrow> Some (Inr shortest_path)
      | Some c \<Rightarrow>
          (case prev c of
             None \<Rightarrow> Some (Inl KeyError)
           | Some p \<Rightarrow> walk_back prev p (shortest_path @ [c])))"

declare main_loop.simps [code]

declare walk_back.simps [code]

text \<open>The state before the first round: lines 7 to 11 of the source.\<close>

definition init_state :: "graph \<Rightarrow> place \<Rightarrow> state" where
  "init_state g start =
     \<lparr>queue = heappush [] (Fin 0, start),
      distances = (map_of (map (\<lambda>node. (node, Infinity)) (keys g)))(start \<mapsto> Fin 0),
      previous_nodes = map_of (map (\<lambda>node. (node, None)) (keys g))\<rparr>"

definition dijkstra_shortest_path ::
    "graph \<Rightarrow> place \<Rightarrow> place \<Rightarrow> (error + place list \<times> dist) option" where
  "dijkstra_shortest_path g start end_node =
     (case main_loop g (init_state g start) of
        None \<Rightarrow> None
      | Some (Inl e) \<Rightarrow> Some (Inl e)
      | Some (Inr s) \<Rightarrow>
          (case walk_back (previous_nodes s) (Some end_node) [] of
             None \<Rightarrow> None
           | Some (Inl e) \<Rightarrow> Some (Inl e)
           | Some (Inr shortest_path) \<Rightarrow>
               (case distances s end_node of
                  None \<Rightarrow> Some (Inl KeyError)
                | Some d \<Rightarrow> Some (Inr (rev shortest_path, d)))))"

text \<open>The graph \<^verbatim>\<open>main\<close> starts from.\<close>

definition seed_graph :: graph where
  "seed_graph =
     [(''Jauhar'', [(''Gulshan'', 5), (''Malir'', 7)]),
      (''Gulshan'', [(''Jauhar'', 5), (''Korangi'', 10), (''Malir'', 3)]),
      (''Korangi'', [(''Gulshan'', 10), (''Malir'', 4)]),
      (''Malir'', [(''Jauhar'', 7), (''Gulshan'', 3), (''Korangi'', 4), (''Saddar'', 8)]),
      (''Saddar'', [(''Malir'', 8), (''Clifton'', 6)]),
      (''Clifton'', [(''Saddar'', 6), (''Defence'', 4)]),
      (''Defence'', [(''Clifton'', 4)])]"

section \<open>The operations that change the graph\<close>

text \<open>
  What the user types is a parameter of each operation. A menu number is the outcome of
  \<^verbatim>\<open>int(input().strip())\<close>, \<open>None\<close> when it raises \<^verbatim>\<open>ValueError\<close>; a distance is
  the outcome of \<^verbatim>\<open>float(input().strip())\<close> in the same way.
\<close>

definition select_place :: "graph \<Rightarrow> int option \<Rightarrow> place option" where
  "select_place g choice =
     (case choice of
        None \<Rightarrow> None
      | Some c \<Rightarrow>
          if 1 \<le> c \<and> c \<le> int (length g) then Some (keys g ! nat (c - 1)) else None)"

text \<open>
  \<^verbatim>\<open>graph[a][b] = d\<close> and \<^verbatim>\<open>del graph[a][b]\<close>. The inner dictionary is changed in place, so
  \<open>a\<close> keeps its position among the keys.
\<close>

definition set_route :: "graph \<Rightarrow> place \<Rightarrow> place \<Rightarrow> real \<Rightarrow> error + graph" where
  "set_route g a b d =
     (case map_of g a of
        None \<Rightarrow> Inl KeyError
      | Some nb \<Rightarrow> Inr (AList.update a (AList.update b d nb) g))"

definition del_route :: "graph \<Rightarrow> place \<Rightarrow> place \<Rightarrow> error + graph" where
  "del_route g a b =
     (case map_of g a of
        None \<Rightarrow> Inl KeyError
      | Some nb \<Rightarrow>
          if b \<in> set (keys nb) then Inr (AList.update a (AList.delete b nb) g)
          else Inl KeyError)"

text \<open>
  Every operation returns the graph it leaves behind, together with the exception that ended
  it, if one did. \<^verbatim>\<open>if not place\<close> is true for \<^verbatim>\<open>None\<close> and for the empty string.
\<close>

definition add_route :: "graph \<Rightarrow> int option \<Rightarrow> int option \<Rightarrow> real option \<Rightarrow> error option \<times> graph" where
  "add_route g choice1 choice2 dinput =
     (case (select_place g choice1, select_place g choice2) of
        (Some place1, Some place2) \<Rightarrow>
          if place1 = [] \<or> place2 = [] then (None, g)
          else (case dinput of
                  None \<Rightarrow> (None, g)
                | Some distance \<Rightarrow>
                    (case set_route g place1 place2 distance of
                       Inl e \<Rightarrow> (Some e, g)
                     | Inr g1 \<Rightarrow>
                         (case set_route g1 place2 place1 distance of
                            Inl e \<Rightarrow> (Some e, g1)
                          | Inr g2 \<Rightarrow> (None, g2))))
      | _ \<Rightarrow> (None, g))"

definition remove_route :: "graph \<Rightarrow> int option \<Rightarrow> int option \<Rightarrow> error option \<times> graph" where
  "remove_route g choice1 choice2 =
     (case (select_place g choice1, select_place g choice2) of
        (Some place1, Some place2) \<Rightarrow>
          if place1 = [] \<or> place2 = [] then (None, g)
          else (case map_of g place1 of
                  None \<Rightarrow> (Some KeyError, g)
                | Some nb \<Rightarrow>
                    if place2 \<in> set (keys nb) then
                      (case del_route g place1 place2 of
                         Inl e \<Rightarrow> (Some e, g)
                       | Inr g1 \<Rightarrow>
                           (case del_route g1 place2 place1 of
                              Inl e \<Rightarrow> (Some e, g1)
                            | Inr g2 \<Rightarrow> (None, g2)))
                    else (None, g))
      | _ \<Rightarrow> (None, g))"

definition remove_place :: "graph \<Rightarrow> int option \<Rightarrow> error option \<times> graph" where
  "remove_place g choice =
     (case select_place g choice of
        None \<Rightarrow> (None, g)
      | Some place \<Rightarrow>
          if place = [] then (None, g)
          else (None, map (\<lambda>(k, neighbors). (k, AList.delete place neighbors))
                        (AList.delete place g)))"

text \<open>
  \<^verbatim>\<open>neighbor.lower() == 'done'\<close>: only the ASCII capitals have an ASCII lower-case form, so
  lowering those decides the test.
\<close>

definition lower_char :: "char \<Rightarrow> char" where
  "lower_char c =
     (if (65::nat) \<le> of_char c \<and> of_char c \<le> (90::nat) then char_of (of_char c + (32::nat))
      else c)"

definition is_done :: "string \<Rightarrow> bool" where
  "is_done neighbor = (map lower_char neighbor = ''done'')"

text \<open>
  The \<^verbatim>\<open>while True\<close> loop of \<^verbatim>\<open>add_place\<close>. Each entry is a neighbour line and the outcome
  of parsing the distance line that follows it; the distance is not asked for when the
  neighbour is unknown. The loop ends at the line \<^verbatim>\<open>done\<close>, and the entries are all that was
  typed up to it.
\<close>

fun add_place_loop :: "graph \<Rightarrow> place \<Rightarrow> (string \<times> real option) list \<Rightarrow> error option \<times> graph" where
  "add_place_loop g new_place [] = (None, g)"
| "add_place_loop g new_place ((neighbor, dinput) # rest) =
     (if is_done neighbor then (None, g)
      else if neighbor \<notin> set (keys g) then add_place_loop g new_place rest
      else (case dinput of
              None \<Rightarrow> add_place_loop g new_place rest
            | Some distance \<Rightarrow>
                (case set_route g new_place neighbor distance of
                   Inl e \<Rightarrow> (Some e, g)
                 | Inr g1 \<Rightarrow>
                     (case set_route g1 neighbor new_place distance of
                        Inl e \<Rightarrow> (Some e, g1)
                      | Inr g2 \<Rightarrow> add_place_loop g2 new_place rest))))"

definition add_place :: "graph \<Rightarrow> place \<Rightarrow> (string \<times> real option) list \<Rightarrow> error option \<times> graph" where
  "add_place g new_place entries =
     (if new_place \<in> set (keys g) then (None, g)
      else add_place_loop (AList.update new_place [] g) new_place entries)"

text \<open>The menu entries 2 to 5 of \<^verbatim>\<open>main\<close>, with what the user types for each.\<close>

datatype operation =
    AddPlace place "(string \<times> real option) list"
  | RemovePlace "int option"
  | AddRoute "int option" "int option" "real option"
  | RemoveRoute "int option" "int option"

fun apply_operation :: "graph \<Rightarrow> operation \<Rightarrow> error option \<times> graph" where
  "apply_operation g (AddPlace new_place entries) = add_place g new_place entries"
| "apply_operation g (RemovePlace choice) = remove_place g choice"
| "apply_operation g (AddRoute choice1 choice2 dinput) = add_route g choice1 choice2 dinput"
| "apply_operation g (RemoveRoute choice1 choice2) = remove_route g choice1 choice2"

section \<open>The invariants of the graph\<close>

text \<open>\<^verbatim>\<open>graph[a][b]\<close> as a lookup that may miss.\<close>

definition route :: "graph \<Rightarrow> place \<Rightarrow> place \<Rightarrow> real option" where
  "route g a b = (case map_of g a of None \<Rightarrow> None | Some nb \<Rightarrow> map_of nb b)"

text \<open>
  Symmetry: whenever \<open>b\<close> is a neighbour of \<open>a\<close> with weight \<open>w\<close>, the place \<open>b\<close> lists
  \<open>a\<close> with the same weight.
\<close>

definition symmetric :: "graph \<Rightarrow> bool" where
  "symmetric g = (\<forall>a b w. route g a b = Some w \<longrightarrow> route g b a = Some w)"

text \<open>
  The two directed entries of the route between \<open>a\<close> and \<open>b\<close>: the pairs an operation on
  that route touches.
\<close>

definition swapped :: "place \<Rightarrow> place \<Rightarrow> place \<Rightarrow> place \<Rightarrow> bool" where
  "swapped a b x y = ((x = a \<and> y = b) \<or> (x = b \<and> y = a))"

text \<open>
  The other invariants of the store, stated on the entries of the dictionaries: no distance
  is negative, and every neighbour is itself a place of the graph.
\<close>

definition nonneg :: "graph \<Rightarrow> bool" where
  "nonneg g = (\<forall>(a, nb) \<in> set g. \<forall>(b, w) \<in> set nb. 0 \<le> w)"

definition closed_refs :: "graph \<Rightarrow> bool" where
  "closed_refs g = (\<forall>(a, nb) \<in> set g. \<forall>(b, w) \<in> set nb. b \<in> set (keys g))"

text \<open>Symmetry as a check that runs over the entries.\<close>

definition symmetric_entries :: "graph \<Rightarrow> bool" where
  "symmetric_entries g = (\<forall>(a, nb) \<in> set g. \<forall>(b, w) \<in> set nb. route g b a = Some w)"

section \<open>Paths, reachability and the shortest distance\<close>

text \<open>
  A dictionary has every key once. The model's lists are dictionaries of the program only
  under this condition.
\<close>

definition wf_graph :: "graph \<Rightarrow> bool" where
  "wf_graph g = (distinct (keys g) \<and> (\<forall>(a, nb) \<in> set g. distinct (keys nb)))"

text \<open>The invariants of the store that the claims name together.\<close>

definition store_inv :: "graph \<Rightarrow> bool" where
  "store_inv g = (symmetric g \<and> nonneg g \<and> closed_refs g)"

text \<open>The directed entries of the graph, and the places reachable along them.\<close>

definition edges :: "graph \<Rightarrow> (place \<times> place) set" where
  "edges g = {(u, v). \<exists>nb w. map_of g u = Some nb \<and> (v, w) \<in> set nb}"

definition reachable :: "graph \<Rightarrow> place \<Rightarrow> place \<Rightarrow> bool" where
  "reachable g s t = ((s, t) \<in> (edges g)\<^sup>*)"

text \<open>
  A path is a non-empty list of places in which every place has a route to the next one.
  A simple path visits no place twice.
\<close>

fun is_path :: "graph \<Rightarrow> place list \<Rightarrow> bool" where
  "is_path g [] = False"
| "is_path g [x] = True"
| "is_path g (x # y # rest) = (route g x y \<noteq> None \<and> is_path g (y # rest))"

definition simple_path :: "graph \<Rightarrow> place \<Rightarrow> place \<Rightarrow> place list \<Rightarrow> bool" where
  "simple_path g s t p = (is_path g p \<and> hd p = s \<and> last p = t \<and> distinct p)"

text \<open>The distance of the route from \<open>x\<close> to \<open>y\<close>.\<close>

definition route_weight :: "graph \<Rightarrow> place \<Rightarrow> place \<Rightarrow> real" where
  "route_weight g x y = (case route g x y of None \<Rightarrow> 0 | Some w \<Rightarrow> w)"

text \<open>The weight of a path as a real number: the sum of the distances of its routes.\<close>

fun path_weight :: "graph \<Rightarrow> place list \<Rightarrow> real" where
  "path_weight g (x # y # rest) = route_weight g x y + path_weight g (y # rest)"
| "path_weight g [x] = 0"
| "path_weight g [] = 0"

text \<open>
  The weight of a path as the program adds it up: the distances of its routes are added
  one after the other, from the first place on, and every sum is rounded to a double.
\<close>

fun weight_from :: "dist \<Rightarrow> graph \<Rightarrow> place list \<Rightarrow> dist" where
  "weight_from acc g (x # y # rest) = weight_from (add_weight acc (route_weight g x y)) g (y # rest)"
| "weight_from acc g [x] = acc"
| "weight_from acc g [] = acc"

definition float_weight :: "graph \<Rightarrow> place list \<Rightarrow> dist" where
  "float_weight g p = weight_from (Fin 0) g p"

text \<open>
  \<open>d\<close> is the least weight, added up as the program does, of a simple path from \<open>s\<close> to
  \<open>t\<close>.
\<close>

definition least_weight :: "graph \<Rightarrow> place \<Rightarrow> place \<Rightarrow> dist \<Rightarrow> bool" where
  "least_weight g s t d =
     ((\<exists>p. simple_path g s t p \<and> float_weight g p = d) \<and>
      (\<forall>p. simple_path g s t p \<longrightarrow> d \<le> float_weight g p))"

text \<open>
  \<open>x\<close> is the least weight, as a real number, of a simple path from \<open>s\<close> to \<open>t\<close>: what
  the specification calls the shortest distance.
\<close>

definition least_real_weight :: "graph \<Rightarrow> place \<Rightarrow> place \<Rightarrow> real \<Rightarrow> bool" where
  "least_real_weight g s t x =
     ((\<exists>p. simple_path g s t p \<and> path_weight g p = x) \<and>
      (\<forall>p. simple_path g s t p \<longrightarrow> x \<le> path_weight g p))"

text \<open>Every distance of the graph is a whole number, as in the seed graph.\<close>

definition whole_weights :: "graph \<Rightarrow> bool" where
  "whole_weights g = (\<forall>(a, nb) \<in> set g. \<forall>(b, w) \<in> set nb. w \<in> \<int>)"

section \<open>The invariant of the main loop\<close>

text \<open>
  The walks that the relaxations build: a walk from \<open>start\<close> is extended by one entry
  \<open>(v, w)\<close> of the dictionary of its last place at a time, and \<open>w\<close> is added to its weight
  as the program adds it.
\<close>

inductive walk :: "graph \<Rightarrow> place \<Rightarrow> place list \<Rightarrow> dist \<Rightarrow> bool" for g start where
  walk_start: "walk g start [start] (Fin 0)"
| walk_step: "walk g start p e \<Longrightarrow> map_of g (last p) = Some nb \<Longrightarrow> (v, w) \<in> set nb \<Longrightarrow>
     walk g start (p @ [v]) (add_weight e w)"

text \<open>
  \<open>chain prev x p\<close>: following \<^verbatim>\<open>previous_nodes\<close> back from \<open>x\<close> ends at a place without
  predecessor, and \<open>p\<close> lists the places met, the last one first in the walk.
\<close>

inductive chain :: "(place \<rightharpoonup> place option) \<Rightarrow> place \<Rightarrow> place list \<Rightarrow> bool" for prev where
  chain_root: "prev x = Some None \<Longrightarrow> chain prev x [x]"
| chain_step: "prev x = Some (Some u) \<Longrightarrow> chain prev u p \<Longrightarrow> chain prev x (p @ [x])"

text \<open>
  The invariant speaks of the set \<open>S\<close> of settled places, those that were popped with their
  current distance; the program does not store it. \<open>R\<close> is the set of places all of whose
  routes have been relaxed; between two rounds it is \<open>S\<close>, inside the \<^verbatim>\<open>for\<close> loop it
  lacks the place being worked on.
\<close>

definition inv_dom :: "graph \<Rightarrow> state \<Rightarrow> bool" where
  "inv_dom g s =
     (dom (distances s) = set (keys g) \<and> dom (previous_nodes s) = set (keys g))"

definition inv_queue :: "place set \<Rightarrow> state \<Rightarrow> bool" where
  "inv_queue S s =
     (distinct (queue s) \<and>
      (\<forall>d u. (d, u) \<in> set (queue s) \<longrightarrow>
         Fin 0 \<le> d \<and> d < Infinity \<and> representable d \<and>
         (\<exists>e. distances s u = Some e \<and> e \<le> d \<and> (u \<in> S \<longrightarrow> e < d))))"

definition inv_settled :: "place set \<Rightarrow> state \<Rightarrow> bool" where
  "inv_settled S s =
     (\<forall>u \<in> S. \<exists>e. distances s u = Some e \<and> e < Infinity \<and>
        (\<forall>d x. (d, x) \<in> set (queue s) \<longrightarrow> e \<le> d))"

definition inv_pending :: "place set \<Rightarrow> state \<Rightarrow> bool" where
  "inv_pending S s =
     (\<forall>u e. u \<notin> S \<longrightarrow> distances s u = Some e \<longrightarrow> e < Infinity \<longrightarrow> (e, u) \<in> set (queue s))"

definition inv_start :: "place \<Rightarrow> state \<Rightarrow> bool" where
  "inv_start start s =
     (distances s start = Some (Fin 0) \<and> previous_nodes s start = Some None)"

definition inv_chain :: "graph \<Rightarrow> place \<Rightarrow> place set \<Rightarrow> state \<Rightarrow> bool" where
  "inv_chain g start S s =
     ((\<forall>x. distances s x = Some Infinity \<longrightarrow> previous_nodes s x = Some None) \<and>
      (\<forall>x e. distances s x = Some e \<longrightarrow> e < Infinity \<longrightarrow>
         (\<exists>p. chain (previous_nodes s) x p \<and> walk g start p e \<and> distinct p \<and>
              set (butlast p) \<subseteq> S)))"

definition inv_relaxed :: "graph \<Rightarrow> place set \<Rightarrow> state \<Rightarrow> bool" where
  "inv_relaxed g R s =
     (\<forall>u \<in> R. \<forall>e nb v w. distances s u = Some e \<longrightarrow> map_of g u = Some nb \<longrightarrow>
        (v, w) \<in> set nb \<longrightarrow> (\<exists>c. distances s v = Some c \<and> c \<le> add_weight e w))"

definition dinv :: "graph \<Rightarrow> place \<Rightarrow> place set \<Rightarrow> place set \<Rightarrow> state \<Rightarrow> bool" where
  "dinv g start S R s =
     (inv_dom g s \<and> inv_queue S s \<and> inv_settled S s \<and> inv_pending S s \<and>
      inv_start start s \<and> inv_chain g start S s \<and> inv_relaxed g R s)"

text \<open>No settled place is farther than \<open>d\<close>.\<close>

definition below :: "place set \<Rightarrow> state \<Rightarrow> dist \<Rightarrow> bool" where
  "below S s d = (\<forall>x \<in> S. \<exists>e. distances s x = Some e \<and> e \<le> d)"

text \<open>Distances never grow: no distance of \<open>s'\<close> is larger than it is in \<open>s\<close>.\<close>

definition shrinks :: "state \<Rightarrow> state \<Rightarrow> bool" where
  "shrinks s s' =
     (\<forall>x c. distances s x = Some c \<longrightarrow> (\<exists>c'. distances s' x = Some c' \<and> c' \<le> c))"

text \<open>
  What the \<^verbatim>\<open>for\<close> loop over the entries \<open>nbrs\<close> of the place \<open>u\<close>, popped with distance
  \<open>d\<close>, has achieved when it ends in \<open>s'\<close>.
\<close>

definition relax_post ::
    "graph \<Rightarrow> place \<Rightarrow> place set \<Rightarrow> place set \<Rightarrow> place \<Rightarrow> dist \<Rightarrow> neighbors \<Rightarrow> state \<Rightarrow> state \<Rightarrow> bool" where
  "relax_post g start S R u d nbrs s s' =
     (dinv g start S R s' \<and> below S s' d \<and> shrinks s s' \<and> distances s' u = Some d \<and>
      (\<forall>v w. (v, w) \<in> set nbrs \<longrightarrow> (\<exists>c. distances s' v = Some c \<and> c \<le> add_weight d w)))"

text \<open>
  The order in which the rounds of the main loop descend: a round settles a place, or it
  leaves the settled places alone and shortens the queue.
\<close>

definition round_order :: "graph \<Rightarrow> ((place set \<times> state) \<times> (place set \<times> state)) set" where
  "round_order g =
     inv_image (less_than <*lex*> less_than)
       (\<lambda>(S, s). (card (set (keys g) - S), length (queue s)))"

text \<open>
  How the main loop ends: with \<^verbatim>\<open>KeyError\<close> only if a neighbour is no place of the graph,
  otherwise with an empty queue in a state that has the invariant.
\<close>

definition loop_done :: "graph \<Rightarrow> place \<Rightarrow> error + state \<Rightarrow> bool" where
  "loop_done g start r =
     ((\<forall>e. r = Inl e \<longrightarrow> \<not> closed_refs g) \<and>
      (\<forall>s'. r = Inr s' \<longrightarrow> queue s' = [] \<and> (\<exists>S'. dinv g start S' S' s')))"

text \<open>
  Two small graphs with a place that has no route; in the second one the route between the
  other two places has a negative distance.
\<close>

definition isolated_graph :: graph where
  "isolated_graph = [(''A'', [(''B'', 1)]), (''B'', [(''A'', 1)]), (''Z'', [])]"

definition negative_graph :: graph where
  "negative_graph = [(''A'', [(''B'', - 1)]), (''B'', [(''A'', - 1)]), (''Z'', [])]"

text \<open>
  Three places in a row, with two routes of the same distance \<open>w\<close>; and the graph in which
  this distance is \<^verbatim>\<open>2**1023\<close>, a double. The sum \<^verbatim>\<open>2**1024\<close> of the two distances is
  beyond the largest double.
\<close>

definition row_graph :: "real \<Rightarrow> graph" where
  "row_graph w =
     [(''A'', [(''B'', w)]),
      (''B'', [(''A'', w), (''C'', w)]),
      (''C'', [(''B'', w)])]"

definition overflow_graph :: graph where
  "overflow_graph = row_graph (2 ^ 1023)"

text \<open>
  What keeps every lookup of the query inside its dictionary: the three dictionaries have
  the keys of the graph, and the queue and the predecessors name keys only.
\<close>

definition inv_keys :: "graph \<Rightarrow> state \<Rightarrow> bool" where
  "inv_keys g s =
     (inv_dom g s \<and> (\<forall>d u. (d, u) \<in> set (queue s) \<longrightarrow> u \<in> set (keys g)) \<and>
      (\<forall>x u. previous_nodes s x = Some (Some u) \<longrightarrow> u \<in> set (keys g)))"

text \<open>
  What holds in every round of the main loop on every graph, negative distances included.
  The distances are doubles; the places of the queue are reachable from the start; a place
  that is not reachable still has the infinite distance and no predecessor.
\<close>

definition inv_doubles :: "state \<Rightarrow> bool" where
  "inv_doubles s = (\<forall>v e. distances s v = Some e \<longrightarrow> representable e)"

definition inv_reached :: "graph \<Rightarrow> place \<Rightarrow> state \<Rightarrow> bool" where
  "inv_reached g start s =
     ((\<forall>d u. (d, u) \<in> set (queue s) \<longrightarrow> reachable g start u) \<and>
      (\<forall>v. v \<in> set (keys g) \<longrightarrow> \<not> reachable g start v \<longrightarrow>
         distances s v = Some Infinity \<and> previous_nodes s v = Some None))"

definition ginv :: "graph \<Rightarrow> place \<Rightarrow> state \<Rightarrow> bool" where
  "ginv g start s = (inv_keys g s \<and> inv_doubles s \<and> inv_reached g start s)"

text \<open>
  There are finitely many doubles. \<open>rank\<close> counts the place of a double in their order, in
  units of \<^verbatim>\<open>2**-1074\<close> from the least finite one; a relaxation lowers the rank of one
  distance, so the ranks of all distances together bound the number of relaxations.
\<close>

fun rank :: "dist \<Rightarrow> nat" where
  "rank NegInfinity = 0"
| "rank (Fin x) = nat (\<lfloor>x * 2 ^ 1074\<rfloor> + 2 ^ 2098) + 1"
| "rank Infinity = 2 ^ 2099 + 2"

definition total_rank :: "graph \<Rightarrow> state \<Rightarrow> nat" where
  "total_rank g s =
     (\<Sum>v \<in> set (keys g). case distances s v of None \<Rightarrow> 0 | Some e \<Rightarrow> rank e)"

text \<open>
  The order in which the rounds of the main loop descend on every graph: a round lowers a
  distance, or it leaves the distances alone and shortens the queue.
\<close>

definition rank_order :: "graph \<Rightarrow> (state \<times> state) set" where
  "rank_order g =
     inv_image (less_than <*lex*> less_than) (\<lambda>s. (total_rank g s, length (queue s)))"

section \<open>Symmetry is kept by every operation\<close>

lemma route_set_route:
  "set_route g a b d = Inr g' \<Longrightarrow> route g' x y = (if x = a \<and> y = b then Some d else route g x y)"
  by (auto simp: set_route_def route_def update_conv' split: option.splits if_splits)

lemma route_del_route:
  "del_route g a b = Inr g' \<Longrightarrow> route g' x y = (if x = a \<and> y = b then None else route g x y)"
  by (auto simp: del_route_def route_def update_conv' delete_conv' split: option.splits if_splits)

lemma swapped_commute: "swapped a b y x = swapped a b x y"
  unfolding swapped_def by blast

lemma route_overwrite_both:
  assumes r1: "\<And>x y. route g1 x y = (if x = a \<and> y = b then v else route g x y)"
    and r2: "\<And>x y. route g2 x y = (if x = b \<and> y = a then v else route g1 x y)"
  shows "route g2 x y = (if swapped a b x y then v else route g x y)"
proof (cases "x = b \<and> y = a")
  case True
  then have "swapped a b x y" unfolding swapped_def by blast
  with True show ?thesis by (simp add: r2)
next
  case ba: False
  show ?thesis
  proof (cases "x = a \<and> y = b")
    case True
    then have "swapped a b x y" unfolding swapped_def by blast
    with True ba show ?thesis by (simp add: r2 r1)
  next
    case False
    with ba have "\<not> swapped a b x y" unfolding swapped_def by blast
    with False ba show ?thesis by (simp only: r2 r1 if_False)
  qed
qed

lemma symmetric_overwrite:
  assumes sym: "symmetric g"
    and r: "\<And>x y. route g' x y = (if swapped a b x y then v else route g x y)"
  shows "symmetric g'"
  unfolding symmetric_def
proof (intro allI impI)
  fix x y w
  assume h: "route g' x y = Some w"
  show "route g' y x = Some w"
  proof (cases "swapped a b x y")
    case True
    then have "swapped a b y x" using swapped_commute by blast
    then have "route g' y x = v" by (simp only: r if_True)
    moreover from True have "route g' x y = v" by (simp only: r if_True)
    ultimately show ?thesis using h by simp
  next
    case False
    then have f': "\<not> swapped a b y x" using swapped_commute by blast
    from False h have "route g x y = Some w" by (simp only: r if_False)
    with sym have "route g y x = Some w" unfolding symmetric_def by blast
    with f' show ?thesis by (simp only: r if_False)
  qed
qed

lemma symmetric_set_both:
  assumes "symmetric g" "set_route g a b d = Inr g1" "set_route g1 b a d = Inr g2"
  shows "symmetric g2"
  by (rule symmetric_overwrite [OF assms(1)], rule route_overwrite_both)
    (rule route_set_route [OF assms(2)], rule route_set_route [OF assms(3)])

lemma symmetric_del_both:
  assumes "symmetric g" "del_route g a b = Inr g1" "del_route g1 b a = Inr g2"
  shows "symmetric g2"
  by (rule symmetric_overwrite [OF assms(1)], rule route_overwrite_both)
    (rule route_del_route [OF assms(2)], rule route_del_route [OF assms(3)])

lemma set_route_Inr: "map_of g a \<noteq> None \<Longrightarrow> \<exists>g'. set_route g a b d = Inr g'"
  by (auto simp: set_route_def)

lemma map_of_set_route:
  "set_route g a b d = Inr g' \<Longrightarrow> map_of g' x \<noteq> None \<longleftrightarrow> map_of g x \<noteq> None"
  by (auto simp: set_route_def update_conv' split: option.splits if_splits)

lemma in_keys_iff: "x \<in> set (keys g) \<longleftrightarrow> map_of g x \<noteq> None"
  by (simp add: keys_def map_of_eq_None_iff)

lemma symmetric_add_place_loop:
  "symmetric g \<Longrightarrow> map_of g n \<noteq> None \<Longrightarrow> symmetric (snd (add_place_loop g n es))"
proof (induction g n es rule: add_place_loop.induct)
  case (1 g n)
  then show ?case by simp
next
  case (2 g n nb d rest)
  show ?case
  proof (cases "is_done nb \<or> nb \<notin> set (keys g) \<or> d = None")
    case True
    with 2 show ?thesis by (auto split: option.splits)
  next
    case False
    then obtain w where d: "d = Some w" and nd: "\<not> is_done nb" and mem: "nb \<in> set (keys g)"
      by auto
    from set_route_Inr [OF "2.prems"(2)] obtain g1 where g1: "set_route g n nb w = Inr g1"
      by blast
    from mem have "map_of g nb \<noteq> None" by (simp add: in_keys_iff)
    then have "map_of g1 nb \<noteq> None" using map_of_set_route [OF g1] by blast
    from set_route_Inr [OF this] obtain g2 where g2: "set_route g1 nb n w = Inr g2"
      by blast
    have sym2: "symmetric g2" by (rule symmetric_set_both [OF "2.prems"(1) g1 g2])
    have "map_of g2 n \<noteq> None"
      using "2.prems"(2) map_of_set_route [OF g1] map_of_set_route [OF g2] by blast
    with sym2 have "symmetric (snd (add_place_loop g2 n rest))"
      using "2.IH"(3) [OF nd _ d g1 g2] mem by blast
    then show ?thesis using nd mem d g1 g2 by simp
  qed
qed

lemma select_place_in_keys: "select_place g c = Some p \<Longrightarrow> map_of g p \<noteq> None"
proof -
  assume h: "select_place g c = Some p"
  then obtain i where "c = Some i" "1 \<le> i" "i \<le> int (length g)" "p = keys g ! nat (i - 1)"
    by (auto simp: select_place_def split: option.splits if_splits)
  then have "nat (i - 1) < length (keys g)" by (simp add: keys_def)
  then have "keys g ! nat (i - 1) \<in> set (keys g)" by (rule nth_mem)
  with \<open>p = _\<close> show ?thesis by (simp add: in_keys_iff)
qed

lemma del_route_Inr: "route g a b \<noteq> None \<Longrightarrow> \<exists>g'. del_route g a b = Inr g'"
  by (auto simp: del_route_def route_def in_keys_iff split: option.splits)

lemma route_in_keys: "map_of g a = Some nb \<Longrightarrow> b \<in> set (keys nb) \<Longrightarrow> route g a b \<noteq> None"
  by (simp add: route_def in_keys_iff)

lemma route_Some_key: "route g a b = Some w \<Longrightarrow> map_of g a \<noteq> None"
  by (auto simp: route_def split: option.splits)

lemma symmetric_add_route: "symmetric g \<Longrightarrow> symmetric (snd (add_route g c1 c2 d))"
proof -
  assume sym: "symmetric g"
  show ?thesis
  proof (cases "\<exists>p1 p2 w. select_place g c1 = Some p1 \<and> select_place g c2 = Some p2
      \<and> p1 \<noteq> [] \<and> p2 \<noteq> [] \<and> d = Some w")
    case False
    then show ?thesis using sym
      by (auto simp: add_route_def split: option.splits)
  next
    case True
    then obtain p1 p2 w where p: "select_place g c1 = Some p1" "select_place g c2 = Some p2"
      "p1 \<noteq> []" "p2 \<noteq> []" "d = Some w" by blast
    from set_route_Inr [OF select_place_in_keys [OF p(1)]]
    obtain g1 where g1: "set_route g p1 p2 w = Inr g1" by blast
    have "map_of g1 p2 \<noteq> None"
      using select_place_in_keys [OF p(2)] map_of_set_route [OF g1] by blast
    from set_route_Inr [OF this] obtain g2 where g2: "set_route g1 p2 p1 w = Inr g2" by blast
    have "symmetric g2" by (rule symmetric_set_both [OF sym g1 g2])
    then show ?thesis using p g1 g2 by (simp add: add_route_def)
  qed
qed

lemma swapped_same: "swapped a a x y = (x = a \<and> y = a)"
  unfolding swapped_def by blast

lemma symmetric_remove_route: "symmetric g \<Longrightarrow> symmetric (snd (remove_route g c1 c2))"
proof -
  assume sym: "symmetric g"
  show ?thesis
  proof (cases "select_place g c1")
    case None
    then show ?thesis using sym by (simp add: remove_route_def)
  next
    case p1: (Some p1)
    show ?thesis
    proof (cases "select_place g c2")
      case None
      then show ?thesis using sym p1 by (simp add: remove_route_def)
    next
      case p2: (Some p2)
      from select_place_in_keys [OF p1] obtain nb where nb: "map_of g p1 = Some nb" by blast
      show ?thesis
      proof (cases "p1 = [] \<or> p2 = [] \<or> p2 \<notin> set (keys nb)")
        case True
        then show ?thesis using sym p1 p2 nb by (auto simp: remove_route_def)
      next
        case False
        then have ne: "p1 \<noteq> []" "p2 \<noteq> []" and mem: "p2 \<in> set (keys nb)" by blast+
        have r12: "route g p1 p2 \<noteq> None" by (rule route_in_keys [OF nb mem])
        from del_route_Inr [OF this] obtain g1 where g1: "del_route g p1 p2 = Inr g1" by blast
        show ?thesis
        proof (cases "del_route g1 p2 p1")
          case (Inr g2)
          have "symmetric g2" by (rule symmetric_del_both [OF sym g1 Inr])
          then show ?thesis using p1 p2 ne nb mem g1 Inr by (simp add: remove_route_def)
        next
          case (Inl e)
          have eq: "p2 = p1"
          proof (rule ccontr)
            assume neq: "p2 \<noteq> p1"
            from r12 obtain w where "route g p1 p2 = Some w" by blast
            with sym have "route g p2 p1 = Some w" unfolding symmetric_def by blast
            moreover have "route g1 p2 p1 = route g p2 p1"
              using neq by (simp add: route_del_route [OF g1])
            ultimately have "route g1 p2 p1 \<noteq> None" by simp
            from del_route_Inr [OF this] Inl show False by auto
          qed
          have "route g1 x y = (if swapped p1 p1 x y then None else route g x y)" for x y
            using route_del_route [OF g1, of x y] by (simp only: swapped_same eq)
          then have "symmetric g1" by (rule symmetric_overwrite [OF sym])
          then show ?thesis using p1 p2 ne nb mem g1 Inl by (simp add: remove_route_def)
        qed
      qed
    qed
  qed
qed

lemma map_of_map_delete:
  "map_of (map (\<lambda>(k, nb). (k, AList.delete p nb)) g) a = map_option (AList.delete p) (map_of g a)"
  by (induction g) auto

lemma route_remove_place:
  "route (map (\<lambda>(k, nb). (k, AList.delete p nb)) (AList.delete p g)) x y =
     (if x = p \<or> y = p then None else route g x y)"
  by (auto simp: route_def map_of_map_delete delete_conv' split: option.splits)

lemma symmetric_remove_place: "symmetric g \<Longrightarrow> symmetric (snd (remove_place g c))"
proof -
  assume sym: "symmetric g"
  show ?thesis
  proof (cases "\<exists>p. select_place g c = Some p \<and> p \<noteq> []")
    case False
    then show ?thesis using sym by (auto simp: remove_place_def split: option.splits)
  next
    case True
    then obtain p where p: "select_place g c = Some p" "p \<noteq> []" by blast
    let ?g' = "map (\<lambda>(k, nb). (k, AList.delete p nb)) (AList.delete p g)"
    have "symmetric ?g'"
      unfolding symmetric_def
    proof (intro allI impI)
      fix x y w
      assume h: "route ?g' x y = Some w"
      then have ne: "x \<noteq> p" "y \<noteq> p" and "route g x y = Some w"
        by (auto simp: route_remove_place split: if_splits)
      with sym have "route g y x = Some w" unfolding symmetric_def by blast
      with ne show "route ?g' y x = Some w" by (simp add: route_remove_place)
    qed
    then show ?thesis using p by (simp add: remove_place_def)
  qed
qed

lemma route_update_empty:
  "route (AList.update n [] g) x y = (if x = n then None else route g x y)"
  by (auto simp: route_def update_conv' split: option.splits)

lemma symmetric_add_place: "symmetric g \<Longrightarrow> symmetric (snd (add_place g n es))"
proof -
  assume sym: "symmetric g"
  show ?thesis
  proof (cases "n \<in> set (keys g)")
    case True
    then show ?thesis using sym by (simp add: add_place_def)
  next
    case False
    let ?g' = "AList.update n [] g"
    have "symmetric ?g'"
      unfolding symmetric_def
    proof (intro allI impI)
      fix x y w
      assume h: "route ?g' x y = Some w"
      then have "x \<noteq> n" and r: "route g x y = Some w"
        by (auto simp: route_update_empty split: if_splits)
      with sym have r': "route g y x = Some w" unfolding symmetric_def by blast
      then have "map_of g y \<noteq> None" by (rule route_Some_key)
      with False have "y \<noteq> n" by (auto simp: in_keys_iff)
      with r' show "route ?g' y x = Some w" by (simp add: route_update_empty)
    qed
    moreover have "map_of ?g' n \<noteq> None" by (simp add: update_conv')
    ultimately have "symmetric (snd (add_place_loop ?g' n es))"
      by (rule symmetric_add_place_loop)
    with False show ?thesis by (simp add: add_place_def)
  qed
qed

lemma symmetric_entries_symmetric: "symmetric_entries g \<Longrightarrow> symmetric g"
  unfolding symmetric_def
proof (intro allI impI)
  fix a b w
  assume chk: "symmetric_entries g" and r: "route g a b = Some w"
  from r obtain nb where nb: "map_of g a = Some nb" "map_of nb b = Some w"
    by (auto simp: route_def split: option.splits)
  then have "(a, nb) \<in> set g" "(b, w) \<in> set nb" by (auto dest: map_of_SomeD)
  with chk show "route g b a = Some w" unfolding symmetric_entries_def by blast
qed

lemma symmetric_seed_graph: "symmetric seed_graph"
  by (rule symmetric_entries_symmetric)
    (simp add: symmetric_entries_def seed_graph_def route_def)

text \<open>
  Claim C4. From a symmetric graph, every operation of the menu that changes the graph (adding
  a place with its routes, adding or updating a route, removing a route, removing a place),
  whatever the user types, leaves a symmetric graph: whenever \<open>b\<close> is a neighbour of \<open>a\<close>
  with weight \<open>w\<close>, the place \<open>b\<close> lists \<open>a\<close> with weight \<open>w\<close>. This holds for the
  graph left behind by a run that an exception ends, too.
\<close>

theorem mutation_preserves_symmetry:
  "symmetric g \<Longrightarrow> symmetric (snd (apply_operation g operation))"
  by (cases operation)
    (simp_all add: symmetric_add_place symmetric_remove_place symmetric_add_route
      symmetric_remove_route)

text \<open>The seed graph is symmetric, and stays so when the route Jauhar--Korangi is added.\<close>

theorem mutation_preserves_symmetry_witness:
  "symmetric seed_graph \<and>
   symmetric (snd (apply_operation seed_graph (AddRoute (Some 1) (Some 3) (Some 9))))"
  using mutation_preserves_symmetry [OF symmetric_seed_graph, of "AddRoute (Some 1) (Some 3) (Some 9)"]
    symmetric_seed_graph by simp

lemma seed_select_1: "select_place seed_graph (Some 1) = Some ''Jauhar''"
  by (simp add: select_place_def seed_graph_def keys_def)

lemma seed_select_2: "select_place seed_graph (Some 2) = Some ''Gulshan''"
  by (simp add: select_place_def seed_graph_def keys_def)

lemma seed_add_route_negative:
  "add_route seed_graph (Some 1) (Some 2) (Some (- 1)) =
     (None,
      [(''Jauhar'', [(''Gulshan'', - 1), (''Malir'', 7)]),
       (''Gulshan'', [(''Jauhar'', - 1), (''Korangi'', 10), (''Malir'', 3)]),
       (''Korangi'', [(''Gulshan'', 10), (''Malir'', 4)]),
       (''Malir'', [(''Jauhar'', 7), (''Gulshan'', 3), (''Korangi'', 4), (''Saddar'', 8)]),
       (''Saddar'', [(''Malir'', 8), (''Clifton'', 6)]),
       (''Clifton'', [(''Saddar'', 6), (''Defence'', 4)]),
       (''Defence'', [(''Clifton'', 4)])])"
  unfolding add_route_def seed_select_1 seed_select_2
  by (simp add: set_route_def seed_graph_def)

text \<open>
  Claim C5 says that a negative weight is refused with \<open>InvalidWeight\<close> and leaves the graph
  as it was. \<^verbatim>\<open>add_route\<close> has no such check: on the seed graph, the route between the
  places numbered 1 and 2 with distance \<open>-1\<close> raises nothing, changes the graph and stores
  \<open>-1\<close> in both directions.
\<close>

theorem add_route_negative_counterexample:
  "fst (add_route seed_graph (Some 1) (Some 2) (Some (- 1))) = None \<and>
   snd (add_route seed_graph (Some 1) (Some 2) (Some (- 1))) \<noteq> seed_graph \<and>
   route (snd (add_route seed_graph (Some 1) (Some 2) (Some (- 1)))) ''Jauhar'' ''Gulshan'' = Some (- 1) \<and>
   route (snd (add_route seed_graph (Some 1) (Some 2) (Some (- 1)))) ''Gulshan'' ''Jauhar'' = Some (- 1)"
  unfolding seed_add_route_negative by (simp add: route_def seed_graph_def)

text \<open>
  Claim C5 as amended. For two places selected by their numbers (neither the empty string,
  which \<^verbatim>\<open>if not place\<close> rejects) and every distance that parses as a number, negative
  ones included, \<^verbatim>\<open>add_route\<close> raises nothing and stores the distance in both directions.
  When the distance does not parse, the graph stays as it was.
\<close>

theorem add_route_stores_any_weight:
  assumes "select_place g choice1 = Some a" and "select_place g choice2 = Some b"
    and "a \<noteq> []" and "b \<noteq> []"
  shows "(\<exists>g'. add_route g choice1 choice2 (Some w) = (None, g') \<and>
            route g' a b = Some w \<and> route g' b a = Some w) \<and>
         add_route g choice1 choice2 None = (None, g)"
proof -
  from set_route_Inr [OF select_place_in_keys [OF assms(1)]]
  obtain g1 where g1: "set_route g a b w = Inr g1" by blast
  have "map_of g1 b \<noteq> None"
    using select_place_in_keys [OF assms(2)] map_of_set_route [OF g1] by blast
  from set_route_Inr [OF this] obtain g2 where g2: "set_route g1 b a w = Inr g2" by blast
  have "swapped a b a b" "swapped a b b a" unfolding swapped_def by blast+
  then have "route g2 a b = Some w" "route g2 b a = Some w"
    using route_overwrite_both [OF route_set_route [OF g1] route_set_route [OF g2]]
    by simp_all
  moreover have "add_route g choice1 choice2 (Some w) = (None, g2)"
    using assms g1 g2 by (simp add: add_route_def)
  moreover have "add_route g choice1 choice2 None = (None, g)"
    using assms by (simp add: add_route_def)
  ultimately show ?thesis by blast
qed

text \<open>The amended claim C5 at the seed graph, places 1 and 2, distance \<open>-1\<close>.\<close>

theorem add_route_stores_any_weight_witness:
  "select_place seed_graph (Some 1) = Some ''Jauhar'' \<and>
   select_place seed_graph (Some 2) = Some ''Gulshan'' \<and>
   (\<exists>g'. add_route seed_graph (Some 1) (Some 2) (Some (- 1)) = (None, g') \<and>
      route g' ''Jauhar'' ''Gulshan'' = Some (- 1) \<and> route g' ''Gulshan'' ''Jauhar'' = Some (- 1))"
  using add_route_stores_any_weight [OF seed_select_1 seed_select_2, of "- 1"]
    seed_select_1 seed_select_2 by blast

section \<open>The order of the distances and the rounding of a sum\<close>

lemma less_dist_simps [simp]:
  "Fin x < Fin y \<longleftrightarrow> x < y" "Fin x < Infinity" "NegInfinity < Fin x" "NegInfinity < Infinity"
  "\<not> Infinity < b" "\<not> b < NegInfinity" "\<not> Fin x < NegInfinity"
  by (cases b; auto simp: less_dist_def)+

lemma Infinity_greatest [simp]: "b \<le> Infinity"
  by (cases b) simp_all

lemma not_less_Infinity: "\<not> b < Infinity \<longleftrightarrow> b = Infinity"
  by (cases b) simp_all

lemma round_half_even_floor: "\<lfloor>z\<rfloor> \<le> round_half_even z" "round_half_even z \<le> \<lfloor>z\<rfloor> + 1"
  by (simp_all add: round_half_even_def Let_def)

lemma round_half_even_of_int [simp]: "round_half_even (of_int n) = n"
  by (simp add: round_half_even_def)

lemma round_half_even_mono:
  assumes "z \<le> z'"
  shows "round_half_even z \<le> round_half_even z'"
proof (cases "\<lfloor>z\<rfloor> = \<lfloor>z'\<rfloor>")
  case True
  with assms have "z - of_int \<lfloor>z\<rfloor> \<le> z' - of_int \<lfloor>z'\<rfloor>" by simp
  with True show ?thesis by (auto simp: round_half_even_def Let_def)
next
  case False
  with assms have "\<lfloor>z\<rfloor> < \<lfloor>z'\<rfloor>" using floor_mono [OF assms] by simp
  then have "\<lfloor>z\<rfloor> + 1 \<le> \<lfloor>z'\<rfloor>" by simp
  with round_half_even_floor(2) [of z] round_half_even_floor(1) [of z'] show ?thesis by linarith
qed

lemma ulp_exponent_le_iff:
  assumes "0 \<le> y"
  shows "ulp_exponent y \<le> s \<longleftrightarrow> y < 2 ^ (53 + s)"
proof -
  have "ulp_exponent y \<le> s \<longleftrightarrow> bitlen \<lfloor>y\<rfloor> \<le> int (53 + s)"
    unfolding ulp_exponent_def by auto
  also have "\<dots> \<longleftrightarrow> \<lfloor>y\<rfloor> < 2 ^ (53 + s)"
    by (simp add: bitlen_le_iff_power nat_add_distrib)
  also have "\<dots> \<longleftrightarrow> y < 2 ^ (53 + s)"
  proof -
    have "\<lfloor>y\<rfloor> < (2::int) ^ (53 + s) \<longleftrightarrow> y < of_int ((2::int) ^ (53 + s))"
      by (rule floor_less_iff)
    then show ?thesis by simp
  qed
  finally show ?thesis .
qed

lemma ulp_exponent_ge_iff:
  assumes "0 < s"
  shows "s \<le> ulp_exponent y \<longleftrightarrow> 2 ^ (52 + s) \<le> y"
proof -
  have "s \<le> ulp_exponent y \<longleftrightarrow> int (53 + s) \<le> bitlen \<lfloor>y\<rfloor>"
    unfolding ulp_exponent_def using assms by auto
  also have "\<dots> \<longleftrightarrow> 2 ^ (52 + s) \<le> \<lfloor>y\<rfloor>"
    by (simp add: bitlen_ge_iff_power nat_add_distrib)
  also have "\<dots> \<longleftrightarrow> 2 ^ (52 + s) \<le> y"
  proof -
    have "(2::int) ^ (52 + s) \<le> \<lfloor>y\<rfloor> \<longleftrightarrow> of_int ((2::int) ^ (52 + s)) \<le> y"
      by (rule le_floor_iff)
    then show ?thesis by simp
  qed
  finally show ?thesis .
qed

lemma round_half_even_le: "z \<le> of_int n \<Longrightarrow> round_half_even z \<le> n"
  using round_half_even_mono [of z "of_int n"] by simp

lemma round_half_even_ge: "of_int n \<le> z \<Longrightarrow> n \<le> round_half_even z"
  using round_half_even_mono [of "of_int n" z] by simp

lemma ulp_exponent_mono:
  assumes "0 \<le> y" and "y \<le> y'"
  shows "ulp_exponent y \<le> ulp_exponent y'"
proof -
  from assms have "0 \<le> y'" by simp
  then have "y' < 2 ^ (53 + ulp_exponent y')" using ulp_exponent_le_iff [of y' "ulp_exponent y'"] by simp
  with assms(2) have "y < 2 ^ (53 + ulp_exponent y')" by simp
  with assms(1) show ?thesis using ulp_exponent_le_iff [of y "ulp_exponent y'"] by simp
qed

lemma round_units_upper:
  assumes "0 \<le> y"
  shows "round_units y \<le> 2 ^ (53 + ulp_exponent y)"
proof -
  let ?s = "ulp_exponent y"
  from assms have "y < 2 ^ (53 + ?s)" using ulp_exponent_le_iff [of y ?s] by simp
  then have "y / 2 ^ ?s < 2 ^ 53" by (simp add: divide_less_eq power_add)
  then have "y / 2 ^ ?s \<le> of_int (2 ^ 53)" by simp
  then have "round_half_even (y / 2 ^ ?s) \<le> 2 ^ 53" by (rule round_half_even_le)
  then have "round_half_even (y / 2 ^ ?s) * 2 ^ ?s \<le> 2 ^ 53 * 2 ^ ?s" by simp
  then show ?thesis unfolding round_units_def by (simp add: power_add)
qed

lemma round_units_lower:
  assumes "0 < ulp_exponent y"
  shows "2 ^ (52 + ulp_exponent y) \<le> round_units y"
proof -
  let ?s = "ulp_exponent y"
  from assms have "2 ^ (52 + ?s) \<le> y" using ulp_exponent_ge_iff [of ?s y] by simp
  then have "2 ^ 52 \<le> y / 2 ^ ?s" by (simp add: le_divide_eq power_add)
  then have "of_int (2 ^ 52) \<le> y / 2 ^ ?s" by simp
  then have "2 ^ 52 \<le> round_half_even (y / 2 ^ ?s)" by (rule round_half_even_ge)
  then have "2 ^ 52 * 2 ^ ?s \<le> round_half_even (y / 2 ^ ?s) * 2 ^ ?s" by simp
  then show ?thesis unfolding round_units_def by (simp add: power_add)
qed

lemma round_units_nonneg:
  assumes "0 \<le> y"
  shows "0 \<le> round_units y"
proof -
  from assms have "of_int 0 \<le> y / 2 ^ ulp_exponent y" by simp
  then have "0 \<le> round_half_even (y / 2 ^ ulp_exponent y)" by (rule round_half_even_ge)
  then show ?thesis unfolding round_units_def by simp
qed

lemma round_units_mono:
  assumes "0 \<le> y" and "y \<le> y'"
  shows "round_units y \<le> round_units y'"
proof -
  let ?s = "ulp_exponent y" and ?s' = "ulp_exponent y'"
  from assms have le: "?s \<le> ?s'" by (rule ulp_exponent_mono)
  show ?thesis
  proof (cases "?s = ?s'")
    case True
    from assms(2) have "y / 2 ^ ?s \<le> y' / 2 ^ ?s" by (simp add: divide_right_mono)
    then have "round_half_even (y / 2 ^ ?s) \<le> round_half_even (y' / 2 ^ ?s)"
      by (rule round_half_even_mono)
    then have "round_half_even (y / 2 ^ ?s) * 2 ^ ?s \<le> round_half_even (y' / 2 ^ ?s) * 2 ^ ?s"
      by simp
    then show ?thesis unfolding round_units_def True [symmetric] .
  next
    case False
    with le have lt: "Suc ?s \<le> ?s'" by simp
    then have pos: "0 < ?s'" by simp
    have "round_units y \<le> 2 ^ (53 + ?s)" by (rule round_units_upper [OF assms(1)])
    also have "(2::int) ^ (53 + ?s) = 2 ^ (52 + Suc ?s)" by simp
    also have "\<dots> \<le> 2 ^ (52 + ?s')" using lt by (intro power_increasing) simp_all
    also have "\<dots> \<le> round_units y'" by (rule round_units_lower [OF pos])
    finally show ?thesis .
  qed
qed

lemma round_units_exact:
  assumes "0 \<le> m" and "m \<le> 2 ^ 53" and "s = 0 \<or> 2 ^ 52 \<le> m"
  shows "round_units (of_int (m * 2 ^ s)) = m * 2 ^ s"
proof -
  let ?Y = "of_int (m * 2 ^ s) :: real"
  have Y0: "0 \<le> ?Y" using assms(1) by simp
  have Yr: "?Y = of_int m * 2 ^ s" by simp
  show ?thesis
  proof (cases "m = 2 ^ 53")
    case True
    have Y: "?Y = 2 ^ (53 + s)" unfolding Yr True by (simp add: power_add)
    have "ulp_exponent ?Y \<le> Suc s"
      using ulp_exponent_le_iff [OF Y0, of "Suc s"] unfolding Y by simp
    moreover have "Suc s \<le> ulp_exponent ?Y"
      using ulp_exponent_ge_iff [of "Suc s" ?Y] unfolding Y by simp
    ultimately have e: "ulp_exponent ?Y = Suc s" by simp
    have "?Y / 2 ^ Suc s = of_int (2 ^ 52)" unfolding Y by (simp add: power_add)
    then have "round_half_even (?Y / 2 ^ Suc s) = 2 ^ 52" by (simp only: round_half_even_of_int)
    then have "round_units ?Y = 2 ^ 52 * 2 ^ Suc s" unfolding round_units_def e by simp
    then show ?thesis unfolding True by (simp add: power_add)
  next
    case False
    with assms(2) have lt: "m < 2 ^ 53" by simp
    then have "of_int m < (2::real) ^ 53" by (metis of_int_less_numeral_power_cancel_iff)
    then have "?Y < 2 ^ 53 * 2 ^ s" unfolding Yr by simp
    then have "?Y < 2 ^ (53 + s)" by (simp add: power_add)
    then have "ulp_exponent ?Y \<le> s" using ulp_exponent_le_iff [OF Y0, of s] by simp
    moreover have "s \<le> ulp_exponent ?Y"
    proof (cases "s = 0")
      case False
      with assms(3) have "2 ^ 52 \<le> m" by simp
      then have "(2::real) ^ 52 \<le> of_int m" by (metis numeral_power_le_of_int_cancel_iff)
      then have "2 ^ 52 * 2 ^ s \<le> ?Y" unfolding Yr by simp
      then have "2 ^ (52 + s) \<le> ?Y" by (simp add: power_add)
      with False show ?thesis using ulp_exponent_ge_iff [of s ?Y] by simp
    qed simp
    ultimately have e: "ulp_exponent ?Y = s" by simp
    have "?Y / 2 ^ s = of_int m" unfolding Yr by simp
    then have "round_half_even (?Y / 2 ^ s) = m" by (simp only: round_half_even_of_int)
    then show ?thesis unfolding round_units_def e by simp
  qed
qed

lemma round_units_idem:
  assumes "0 \<le> y"
  shows "round_units (of_int (round_units y)) = round_units y"
proof -
  let ?s = "ulp_exponent y"
  let ?m = "round_half_even (y / 2 ^ ?s)"
  have ru: "round_units y = ?m * 2 ^ ?s" by (simp add: round_units_def)
  from assms have "of_int 0 \<le> y / 2 ^ ?s" by simp
  then have m0: "0 \<le> ?m" by (rule round_half_even_ge)
  have "?m * 2 ^ ?s \<le> 2 ^ 53 * 2 ^ ?s"
    using round_units_upper [OF assms] unfolding ru by (simp add: power_add)
  then have m1: "?m \<le> 2 ^ 53" by simp
  have m2: "?s = 0 \<or> 2 ^ 52 \<le> ?m"
  proof (cases "?s = 0")
    case False
    then have "2 ^ 52 * 2 ^ ?s \<le> ?m * 2 ^ ?s"
      using round_units_lower [of y] unfolding ru by (simp add: power_add)
    then show ?thesis by simp
  qed simp
  show ?thesis unfolding ru by (rule round_units_exact [OF m0 m1 m2])
qed

lemma round_units_zero [simp]: "round_units 0 = 0"
  using round_half_even_of_int [of 0] by (simp add: round_units_def)

lemma round_units_exact_small:
  assumes "0 \<le> k" and "k < 2 ^ 53"
  shows "round_units (of_int (k * 2 ^ j)) = k * 2 ^ j"
proof (cases "k = 0")
  case True
  then show ?thesis by simp
next
  case False
  with assms(1) have kpos: "0 < k" by simp
  define b where "b = nat (bitlen k)"
  from bitlen_bounds [OF kpos] have lo: "2 ^ (b - 1) \<le> k" and hi: "k < 2 ^ b"
    unfolding b_def by (simp_all add: nat_diff_distrib' bitlen_nonneg)
  have b1: "1 \<le> b"
  proof (rule ccontr)
    assume "\<not> 1 \<le> b"
    then have "b = 0" by simp
    with hi kpos show False by simp
  qed
  have b53: "b \<le> 53"
  proof (rule ccontr)
    assume "\<not> b \<le> 53"
    then have "53 \<le> b - 1" by simp
    then have "(2::int) ^ 53 \<le> 2 ^ (b - 1)" by (intro power_increasing) simp_all
    with lo assms(2) show False by simp
  qed
  define t where "t = 53 - b"
  show ?thesis
  proof (cases "t \<le> j")
    case True
    define s where "s = j - t"
    define m where "m = k * 2 ^ t"
    have js: "j = t + s" using True by (simp add: s_def)
    have "(2::int) ^ 52 = 2 ^ (b - 1) * 2 ^ t"
      using b1 b53 unfolding t_def by (simp add: power_add [symmetric])
    also have "\<dots> \<le> k * 2 ^ t" using lo by simp
    finally have m52: "2 ^ 52 \<le> m" unfolding m_def .
    have "k * 2 ^ t < 2 ^ b * 2 ^ t" using hi by simp
    also have "(2::int) ^ b * 2 ^ t = 2 ^ 53"
      using b53 unfolding t_def by (simp add: power_add [symmetric])
    finally have m53: "m \<le> 2 ^ 53" unfolding m_def by simp
    have eq: "k * 2 ^ j = m * 2 ^ s" unfolding m_def js by (simp add: power_add)
    have "0 \<le> m" using m52 by simp
    from round_units_exact [OF this m53, of s] m52 show ?thesis unfolding eq by simp
  next
    case False
    then have "b + j < 53" unfolding t_def by simp
    have "k * 2 ^ j < 2 ^ b * 2 ^ j" using hi by simp
    also have "(2::int) ^ b * 2 ^ j = 2 ^ (b + j)" by (simp add: power_add)
    also have "\<dots> \<le> 2 ^ 53" using \<open>b + j < 53\<close> by (intro power_increasing) simp_all
    finally have "k * 2 ^ j \<le> 2 ^ 53" by simp
    moreover have "0 \<le> k * 2 ^ j" using assms(1) by simp
    ultimately have "round_units (of_int (k * 2 ^ j * 2 ^ 0)) = k * 2 ^ j * 2 ^ 0"
      by (intro round_units_exact) simp_all
    then show ?thesis by simp
  qed
qed

lemma round_double_mono:
  assumes "x \<le> x'"
  shows "round_double x \<le> round_double x'"
proof -
  let ?m = "round_units (\<bar>x\<bar> * 2 ^ 1074)" and ?m' = "round_units (\<bar>x'\<bar> * 2 ^ 1074)"
  have m0: "0 \<le> ?m" "0 \<le> ?m'" by (simp_all add: round_units_nonneg)
  consider "0 \<le> x" | "x < 0" "0 \<le> x'" | "x' < 0" using assms by linarith
  then show ?thesis
  proof cases
    case 1
    with assms have x': "0 \<le> x'" by simp
    from 1 assms have "\<bar>x\<bar> * 2 ^ 1074 \<le> \<bar>x'\<bar> * 2 ^ 1074" by simp
    then have mm: "?m \<le> ?m'" by (intro round_units_mono) simp_all
    show ?thesis
    proof (cases "2 ^ 2098 \<le> ?m'")
      case True
      with x' show ?thesis by (simp add: round_double_def Let_def)
    next
      case False
      with mm have f: "\<not> 2 ^ 2098 \<le> ?m" by simp
      have "sgn x * of_int ?m \<le> sgn x' * of_int ?m'"
      proof (cases "x = 0")
        case True
        with x' m0(2) show ?thesis by (simp add: sgn_if)
      next
        case False
        with 1 assms have "0 < x" "0 < x'" by simp_all
        with mm show ?thesis by simp
      qed
      then have "sgn x * of_int ?m / 2 ^ 1074 \<le> sgn x' * of_int ?m' / 2 ^ 1074"
        by (simp add: divide_right_mono)
      with False f show ?thesis by (simp add: round_double_def Let_def)
    qed
  next
    case 2
    have l: "round_double x \<le> Fin 0"
      using 2(1) m0(1) by (simp add: round_double_def Let_def divide_le_0_iff)
    have r: "Fin 0 \<le> round_double x'"
      using 2(2) m0(2) by (simp add: round_double_def Let_def sgn_if)
    from l r show ?thesis by (rule order_trans)
  next
    case 3
    with assms have x: "x < 0" by simp
    from 3 assms have "\<bar>x'\<bar> * 2 ^ 1074 \<le> \<bar>x\<bar> * 2 ^ 1074" by simp
    then have mm: "?m' \<le> ?m" by (intro round_units_mono) simp_all
    show ?thesis
    proof (cases "2 ^ 2098 \<le> ?m")
      case True
      with x show ?thesis by (simp add: round_double_def Let_def)
    next
      case False
      with mm have f: "\<not> 2 ^ 2098 \<le> ?m'" by simp
      have "- of_int ?m / 2 ^ 1074 \<le> (- of_int ?m' / 2 ^ 1074 :: real)"
        using mm by (simp add: divide_right_mono)
      with False f x 3 show ?thesis by (simp add: round_double_def Let_def)
    qed
  qed
qed

lemma round_double_idem:
  assumes "round_double x = Fin v"
  shows "round_double v = Fin v"
proof -
  let ?m = "round_units (\<bar>x\<bar> * 2 ^ 1074)"
  have m0: "0 \<le> ?m" by (simp add: round_units_nonneg)
  from assms have fin: "\<not> 2 ^ 2098 \<le> ?m" and v: "v = sgn x * of_int ?m / 2 ^ 1074"
    by (auto simp: round_double_def Let_def split: if_splits)
  have idem: "round_units (of_int ?m) = ?m" by (rule round_units_idem) simp
  show ?thesis
  proof (cases "x = 0 \<or> ?m = 0")
    case True
    then have "v = 0" using v by auto
    then show ?thesis by (simp add: round_double_def)
  next
    case False
    then have x: "x \<noteq> 0" and mpos: "0 < ?m" using m0 by simp_all
    have av: "\<bar>v\<bar> * 2 ^ 1074 = of_int ?m" unfolding v using x m0 by (simp add: abs_mult)
    have sv: "sgn v = sgn x" unfolding v using x mpos by (simp add: sgn_mult sgn_divide)
    show ?thesis
      unfolding round_double_def av idem sv Let_def using fin v x by auto
  qed
qed

lemma representable_round_double: "representable (round_double x)"
  by (cases "round_double x") (simp_all add: round_double_idem)

lemma representable_add_weight: "representable (add_weight d w)"
  by (cases d) (simp_all add: representable_round_double)

lemma add_weight_mono: "a \<le> b \<Longrightarrow> add_weight a w \<le> add_weight b w"
  by (cases a; cases b) (simp_all add: round_double_mono)

lemma add_weight_increasing:
  assumes "representable d" and "0 \<le> w"
  shows "d \<le> add_weight d w"
proof (cases d)
  case (Fin a)
  with assms(1) have "Fin a = round_double a" by simp
  also have "\<dots> \<le> round_double (a + w)" by (rule round_double_mono) (use assms(2) in simp)
  finally show ?thesis using Fin by simp
qed simp_all

lemma round_double_of_int:
  assumes "\<bar>n\<bar> < 2 ^ 53"
  shows "round_double (of_int n) = Fin (of_int n)"
proof -
  have a: "\<bar>of_int n :: real\<bar> * 2 ^ 1074 = of_int (\<bar>n\<bar> * 2 ^ 1074)" by simp
  have ru: "round_units (of_int (\<bar>n\<bar> * 2 ^ 1074)) = \<bar>n\<bar> * 2 ^ 1074"
    by (rule round_units_exact_small) (use assms in simp_all)
  have "\<bar>n\<bar> * 2 ^ 1074 < 2 ^ 53 * (2 ^ 1074 :: int)" using assms by simp
  also have "\<dots> \<le> 2 ^ 2098" by (simp add: power_add [symmetric])
  finally have small: "\<not> 2 ^ 2098 \<le> \<bar>n\<bar> * (2 ^ 1074 :: int)" by simp
  have "sgn (of_int n :: real) * of_int (\<bar>n\<bar> * 2 ^ 1074) / 2 ^ 1074 = of_int n"
    by (simp add: sgn_if)
  with small show ?thesis unfolding round_double_def a ru Let_def by simp
qed

lemma round_double_power2:
  "round_double (2 ^ j) = (if j < 1024 then Fin (2 ^ j) else Infinity)"
proof -
  have a: "\<bar>2 ^ j :: real\<bar> * 2 ^ 1074 = of_int (1 * 2 ^ (j + 1074))" by (simp add: power_add)
  have ru: "round_units (of_int (1 * 2 ^ (j + 1074))) = 1 * 2 ^ (j + 1074)"
    by (rule round_units_exact_small) simp_all
  have "((2::int) ^ 2098 \<le> 2 ^ (j + 1074)) \<longleftrightarrow> 2098 \<le> j + 1074"
    by (rule power_increasing_iff) simp
  then have c: "(2 ^ 2098 \<le> (1 * 2 ^ (j + 1074) :: int)) \<longleftrightarrow> \<not> j < 1024"
    by (simp only: mult_1) arith
  have "sgn (2 ^ j :: real) * of_int (1 * 2 ^ (j + 1074)) / 2 ^ 1074 = 2 ^ j"
    by (simp add: power_add)
  then show ?thesis unfolding round_double_def a ru Let_def c by simp
qed

section \<open>Walks, predecessor chains and the queue\<close>

lemma chain_last: "chain prev x p \<Longrightarrow> p \<noteq> [] \<and> last p = x"
  by (induction rule: chain.induct) simp_all

lemma chain_set: "chain prev x p \<Longrightarrow> set p = insert x (set (butlast p))"
proof -
  assume "chain prev x p"
  then have "p \<noteq> []" "last p = x" by (simp_all add: chain_last)
  then have "p = butlast p @ [x]" by (metis append_butlast_last_id)
  then have "set p = set (butlast p @ [x])" by simp
  then show ?thesis by simp
qed

lemma chain_upd:
  "chain prev x p \<Longrightarrow> v \<notin> set p \<Longrightarrow> chain (prev(v \<mapsto> y)) x p"
proof (induction rule: chain.induct)
  case (chain_root x)
  then show ?case by (auto intro: chain.chain_root)
next
  case (chain_step x u p)
  then show ?case by (auto intro: chain.chain_step)
qed

lemma walk_back_chain:
  "chain prev x p \<Longrightarrow> walk_back prev (Some x) acc = Some (Inr (acc @ rev p))"
proof (induction arbitrary: acc rule: chain.induct)
  case (chain_root x)
  then show ?case by (simp add: walk_back.simps)
next
  case (chain_step x u p)
  have "walk_back prev (Some x) acc = walk_back prev (Some u) (acc @ [x])"
    using chain_step.hyps(1) by (subst walk_back.simps) simp
  also have "\<dots> = Some (Inr ((acc @ [x]) @ rev p))" by (rule chain_step.IH)
  finally show ?case by simp
qed

lemma walk_nonempty: "walk g start p e \<Longrightarrow> p \<noteq> [] \<and> hd p = start"
  by (induction rule: walk.induct) (simp_all add: hd_append)

lemma heappop_min:
  assumes "q \<noteq> []" and "heappop q = ((d, u), q')"
  shows "(d, u) \<in> set q" and "q' = remove1 (d, u) q"
    and "\<And>d' x. (d', x) \<in> set q \<Longrightarrow> d \<le> d'"
proof -
  from assms(2) have m: "min_list q = (d, u)" and q': "q' = remove1 (d, u) q"
    by (auto simp: heappop_def Let_def)
  from assms(1) have M: "min_list q = Min (set q)" by (rule min_list_Min)
  with assms(1) m show "(d, u) \<in> set q" by (metis List.finite_set Min_in set_empty)
  show "q' = remove1 (d, u) q" by (rule q')
  fix d' x assume "(d', x) \<in> set q"
  then have "Min (set q) \<le> (d', x)" by simp
  with M m have "(d, u) \<le> (d', x)" by simp
  then show "d \<le> d'" by (auto simp: less_eq_prod_def)
qed

lemma map_of_const:
  "map_of (map (\<lambda>n. (n, c)) ks) x = (if x \<in> set ks then Some c else None)"
  by (induction ks) auto

lemma representable_zero: "representable (Fin 0)"
  using round_double_of_int [of 0] by simp

lemma dinv_init:
  assumes "start \<in> set (keys g)"
  shows "dinv g start {} {} (init_state g start)"
proof -
  let ?s = "init_state g start"
  have d: "distances ?s x = (if x = start then Some (Fin 0) else if x \<in> set (keys g) then Some Infinity else None)" for x
    by (simp add: init_state_def map_of_const)
  have p: "previous_nodes ?s x = (if x \<in> set (keys g) then Some None else None)" for x
    by (simp add: init_state_def map_of_const)
  have q: "queue ?s = [(Fin 0, start)]" by (simp add: init_state_def heappush_def)
  have "inv_dom g ?s"
    unfolding inv_dom_def using assms by (auto simp: d p dom_def split: if_splits)
  moreover have "inv_queue {} ?s"
    unfolding inv_queue_def using representable_zero by (simp add: q d)
  moreover have "inv_settled {} ?s" unfolding inv_settled_def by simp
  moreover have "inv_pending {} ?s" unfolding inv_pending_def by (auto simp: q d split: if_splits)
  moreover have "inv_start start ?s" unfolding inv_start_def using assms by (simp add: d p)
  moreover have "inv_chain g start {} ?s"
    unfolding inv_chain_def
  proof (intro conjI allI impI)
    fix x assume "distances ?s x = Some Infinity"
    then show "previous_nodes ?s x = Some None" by (auto simp: d p split: if_splits)
  next
    fix x e assume "distances ?s x = Some e" and "e < Infinity"
    then have x: "x = start" "e = Fin 0" by (auto simp: d split: if_splits)
    have "chain (previous_nodes ?s) start [start]"
      by (rule chain_root) (use assms in \<open>simp add: p\<close>)
    moreover have "walk g start [start] (Fin 0)" by (rule walk_start)
    ultimately show "\<exists>p. chain (previous_nodes ?s) x p \<and> walk g start p e \<and> distinct p \<and>
        set (butlast p) \<subseteq> {}"
      unfolding x by (intro exI [of _ "[start]"]) simp
  qed
  moreover have "inv_relaxed g {} ?s" unfolding inv_relaxed_def by simp
  ultimately show ?thesis unfolding dinv_def by blast
qed

section \<open>One relaxation keeps the invariant\<close>

lemma relax_one:
  assumes inv: "dinv g start S R s" and RS: "R \<subseteq> S" and uS: "u \<in> S"
    and du: "distances s u = Some d" and bel: "below S s d"
    and d0: "Fin 0 \<le> d" and dr: "representable d" and w0: "0 \<le> w"
    and nb: "map_of g u = Some nb" and vw: "(v, w) \<in> set nb"
    and dv: "distances s v = Some dn" and lt: "add_weight d w < dn"
    and s': "s' = s\<lparr>distances := (distances s)(v \<mapsto> add_weight d w),
                   previous_nodes := (previous_nodes s)(v \<mapsto> Some u),
                   queue := heappush (queue s) (add_weight d w, v)\<rparr>"
  shows "dinv g start S R s' \<and> below S s' d \<and> shrinks s s' \<and> distances s' u = Some d"
proof -
  define c where "c = add_weight d w"
  from inv have idom: "inv_dom g s" and iq: "inv_queue S s" and iset: "inv_settled S s"
    and ipen: "inv_pending S s" and ist: "inv_start start s" and ich: "inv_chain g start S s"
    and irel: "inv_relaxed g R s"
    unfolding dinv_def by blast+
  have D: "distances s' x = (if x = v then Some c else distances s x)" for x
    by (simp add: s' c_def)
  have P: "previous_nodes s' x = (if x = v then Some (Some u) else previous_nodes s x)" for x
    by (simp add: s')
  have Q: "queue s' = (c, v) # queue s" by (simp add: s' heappush_def c_def)
  have dc: "d \<le> c" unfolding c_def by (rule add_weight_increasing [OF dr w0])
  with d0 have c0: "Fin 0 \<le> c" by (rule order_trans)
  have cr: "representable c" unfolding c_def by (rule representable_add_weight)
  have cdn: "c < dn" using lt unfolding c_def .
  have cfin: "c < Infinity" using cdn by (cases dn; cases c) simp_all
  have dfin: "d < Infinity" using dc cfin by (rule le_less_trans)
  have old: "c < e" if "distances s v = Some e" for e
    using that dv cdn by simp
  have vS: "v \<notin> S"
  proof
    assume "v \<in> S"
    with bel obtain e where "distances s v = Some e" "e \<le> d" unfolding below_def by blast
    with old [of e] dc show False by simp
  qed
  have vu: "v \<noteq> u" using vS uS by blast
  have vR: "v \<notin> R" using vS RS by blast
  have vstart: "v \<noteq> start"
  proof
    assume "v = start"
    with ist have "distances s v = Some (Fin 0)" unfolding inv_start_def by simp
    from old [OF this] c0 show False by simp
  qed
  have vdom: "v \<in> set (keys g)" using idom dv unfolding inv_dom_def by blast
  have "inv_dom g s'"
    using idom vdom unfolding inv_dom_def by (auto simp: s')
  moreover have "inv_queue S s'"
    unfolding inv_queue_def
  proof (intro conjI allI impI)
    have "(c, v) \<notin> set (queue s)"
    proof
      assume "(c, v) \<in> set (queue s)"
      with iq obtain e where "distances s v = Some e" "e \<le> c"
        unfolding inv_queue_def by blast
      with old [of e] show False by simp
    qed
    with iq show "distinct (queue s')" unfolding inv_queue_def Q by simp
  next
    fix d' x assume "(d', x) \<in> set (queue s')"
    then consider "d' = c" "x = v" | "(d', x) \<in> set (queue s)" unfolding Q by auto
    then show "Fin 0 \<le> d'" using iq c0 unfolding inv_queue_def by cases auto
  next
    fix d' x assume "(d', x) \<in> set (queue s')"
    then consider "d' = c" "x = v" | "(d', x) \<in> set (queue s)" unfolding Q by auto
    then show "d' < Infinity" using iq cfin unfolding inv_queue_def by cases auto
  next
    fix d' x assume "(d', x) \<in> set (queue s')"
    then consider "d' = c" "x = v" | "(d', x) \<in> set (queue s)" unfolding Q by auto
    then show "representable d'" using iq cr unfolding inv_queue_def by cases auto
  next
    fix d' x assume "(d', x) \<in> set (queue s')"
    then consider "d' = c" "x = v" | "(d', x) \<in> set (queue s)" unfolding Q by auto
    then show "\<exists>e. distances s' x = Some e \<and> e \<le> d' \<and> (x \<in> S \<longrightarrow> e < d')"
    proof cases
      case 1
      then show ?thesis using vS by (simp add: D)
    next
      case 2
      with iq obtain e where e: "distances s x = Some e" "e \<le> d'" "x \<in> S \<longrightarrow> e < d'"
        unfolding inv_queue_def by blast
      show ?thesis
      proof (cases "x = v")
        case True
        with e old [of e] vS show ?thesis by (simp add: D)
      next
        case False
        with e show ?thesis by (simp add: D)
      qed
    qed
  qed
  moreover have "inv_settled S s'"
    unfolding inv_settled_def
  proof
    fix x assume xS: "x \<in> S"
    with iset obtain e where e: "distances s x = Some e" "e < Infinity"
      "\<forall>d' y. (d', y) \<in> set (queue s) \<longrightarrow> e \<le> d'"
      unfolding inv_settled_def by blast
    from xS bel e(1) have "e \<le> d" unfolding below_def by fastforce
    then have "e \<le> c" using dc by (rule order_trans)
    moreover from xS vS have "x \<noteq> v" by blast
    ultimately show "\<exists>e. distances s' x = Some e \<and> e < Infinity \<and>
        (\<forall>d' y. (d', y) \<in> set (queue s') \<longrightarrow> e \<le> d')"
      using e by (auto simp: D Q)
  qed
  moreover have "inv_pending S s'"
    unfolding inv_pending_def
  proof (intro allI impI)
    fix x e assume "x \<notin> S" "distances s' x = Some e" "e < Infinity"
    then show "(e, x) \<in> set (queue s')"
      using ipen unfolding inv_pending_def by (cases "x = v") (auto simp: D Q)
  qed
  moreover have "inv_start start s'"
    using ist vstart unfolding inv_start_def by (simp add: D P)
  moreover have "inv_chain g start S s'"
    unfolding inv_chain_def
  proof (intro conjI allI impI)
    fix x assume xi: "distances s' x = Some Infinity"
    have "x \<noteq> v"
    proof
      assume "x = v"
      with xi have "c = Infinity" by (simp add: D)
      with cfin show False by simp
    qed
    with xi have "distances s x = Some Infinity" by (simp add: D)
    with ich \<open>x \<noteq> v\<close> show "previous_nodes s' x = Some None"
      unfolding inv_chain_def by (simp add: P)
  next
    fix x e assume xe: "distances s' x = Some e" and efin: "e < Infinity"
    have upd: "previous_nodes s' = (previous_nodes s)(v \<mapsto> Some u)" by (simp add: s')
    show "\<exists>p. chain (previous_nodes s') x p \<and> walk g start p e \<and> distinct p \<and>
        set (butlast p) \<subseteq> S"
    proof (cases "x = v")
      case True
      with xe have e: "e = c" by (simp add: D)
      from ich du dfin obtain p where p: "chain (previous_nodes s) u p" "walk g start p d"
        "distinct p" "set (butlast p) \<subseteq> S"
        unfolding inv_chain_def by blast
      have lp: "last p = u" "p \<noteq> []" using chain_last [OF p(1)] by simp_all
      have "set p \<subseteq> S" using chain_set [OF p(1)] p(4) uS by simp
      with vS have vp: "v \<notin> set p" by blast
      have "chain (previous_nodes s') u p" unfolding upd by (rule chain_upd [OF p(1) vp])
      moreover have "previous_nodes s' v = Some (Some u)" by (simp add: P)
      ultimately have "chain (previous_nodes s') v (p @ [v])" by (rule chain_step [rotated])
      moreover have "walk g start (p @ [v]) c"
        unfolding c_def by (rule walk_step [OF p(2) _ vw]) (simp add: lp nb)
      moreover have "distinct (p @ [v])" using p(3) vp by simp
      moreover have "set (butlast (p @ [v])) \<subseteq> S" using \<open>set p \<subseteq> S\<close> by simp
      ultimately show ?thesis unfolding True e by blast
    next
      case False
      with xe have "distances s x = Some e" by (simp add: D)
      with ich efin obtain p where p: "chain (previous_nodes s) x p" "walk g start p e"
        "distinct p" "set (butlast p) \<subseteq> S"
        unfolding inv_chain_def by blast
      have "set p \<subseteq> insert x S" using chain_set [OF p(1)] p(4) by auto
      with vS False have vp: "v \<notin> set p" by blast
      have "chain (previous_nodes s') x p" unfolding upd by (rule chain_upd [OF p(1) vp])
      with p show ?thesis by blast
    qed
  qed
  moreover have "inv_relaxed g R s'"
    unfolding inv_relaxed_def
  proof (intro ballI allI impI)
    fix x e nb' y w'
    assume xR: "x \<in> R" and xe: "distances s' x = Some e"
      and m: "map_of g x = Some nb'" and yw: "(y, w') \<in> set nb'"
    from xR vR have "x \<noteq> v" by blast
    with xe have "distances s x = Some e" by (simp add: D)
    with irel xR m yw obtain c' where c': "distances s y = Some c'" "c' \<le> add_weight e w'"
      unfolding inv_relaxed_def by blast
    show "\<exists>c'. distances s' y = Some c' \<and> c' \<le> add_weight e w'"
    proof (cases "y = v")
      case True
      with c' old [of c'] show ?thesis by (simp add: D)
    next
      case False
      with c' show ?thesis by (simp add: D)
    qed
  qed
  ultimately have "dinv g start S R s'" unfolding dinv_def by blast
  moreover have "below S s' d"
    unfolding below_def
  proof
    fix x assume xS: "x \<in> S"
    with vS have "x \<noteq> v" by blast
    with bel xS show "\<exists>e. distances s' x = Some e \<and> e \<le> d"
      unfolding below_def by (simp add: D)
  qed
  moreover have "shrinks s s'"
    unfolding shrinks_def
  proof (intro allI impI)
    fix x e assume xc: "distances s x = Some e"
    show "\<exists>c'. distances s' x = Some c' \<and> c' \<le> e"
    proof (cases "x = v")
      case True
      with xc old [of e] show ?thesis by (simp add: D)
    next
      case False
      with xc show ?thesis by (simp add: D)
    qed
  qed
  moreover have "distances s' u = Some d" using vu du by (simp add: D)
  ultimately show ?thesis by blast
qed

section \<open>The relaxation loop keeps the invariant\<close>

lemma shrinks_refl: "shrinks s s"
  unfolding shrinks_def by simp

lemma shrinks_trans: "shrinks s s1 \<Longrightarrow> shrinks s1 s2 \<Longrightarrow> shrinks s s2"
  unfolding shrinks_def by (meson order_trans)

lemma relax_all_inv:
  assumes "dinv g start S R s" and "R \<subseteq> S" and "u \<in> S"
    and "distances s u = Some d" and "below S s d" and "Fin 0 \<le> d" and "representable d"
    and "map_of g u = Some nb" and "set nbrs \<subseteq> set nb"
    and "\<forall>v w. (v, w) \<in> set nb \<longrightarrow> 0 \<le> w"
  shows "(\<forall>e. relax_all d u nbrs s = Inl e \<longrightarrow> (\<exists>v w. (v, w) \<in> set nbrs \<and> v \<notin> set (keys g))) \<and>
         (\<forall>s'. relax_all d u nbrs s = Inr s' \<longrightarrow> relax_post g start S R u d nbrs s s')"
  using assms
proof (induction nbrs arbitrary: s)
  case Nil
  then show ?case by (simp add: relax_post_def shrinks_refl)
next
  case (Cons a rest)
  obtain v w where a: "a = (v, w)" by (cases a)
  from Cons.prems(9) a have vw: "(v, w) \<in> set nb" and rest: "set rest \<subseteq> set nb" by auto
  from Cons.prems(10) vw have w0: "0 \<le> w" by blast
  from Cons.prems(1) have idom: "inv_dom g s" unfolding dinv_def by blast
  show ?case
  proof (cases "distances s v")
    case None
    then have "v \<notin> set (keys g)" using idom unfolding inv_dom_def by blast
    moreover have "relax_all d u (a # rest) s = Inl KeyError" using None a by simp
    ultimately show ?thesis using a by auto
  next
    case (Some dn)
    show ?thesis
    proof (cases "add_weight d w < dn")
      case True
      define s1 where "s1 = s\<lparr>distances := (distances s)(v \<mapsto> add_weight d w),
                   previous_nodes := (previous_nodes s)(v \<mapsto> Some u),
                   queue := heappush (queue s) (add_weight d w, v)\<rparr>"
      have one: "dinv g start S R s1 \<and> below S s1 d \<and> shrinks s s1 \<and> distances s1 u = Some d"
        by (rule relax_one [OF Cons.prems(1-7) w0 Cons.prems(8) vw Some True s1_def])
      have run: "relax_all d u (a # rest) s = relax_all d u rest s1"
        using Some True a by (simp add: s1_def Let_def)
      have IH: "(\<forall>e. relax_all d u rest s1 = Inl e \<longrightarrow> (\<exists>v w. (v, w) \<in> set rest \<and> v \<notin> set (keys g))) \<and>
         (\<forall>s'. relax_all d u rest s1 = Inr s' \<longrightarrow> relax_post g start S R u d rest s1 s')"
        using one by (intro Cons.IH Cons.prems(2,3,6,7,8,10) rest) blast+
      have v1: "distances s1 v = Some (add_weight d w)" by (simp add: s1_def)
      show ?thesis
      proof (intro conjI allI impI)
        fix e assume "relax_all d u (a # rest) s = Inl e"
        then have "relax_all d u rest s1 = Inl e" using run by simp
        with IH obtain v' w' where "(v', w') \<in> set rest" "v' \<notin> set (keys g)" by blast
        then show "\<exists>v w. (v, w) \<in> set (a # rest) \<and> v \<notin> set (keys g)" by auto
      next
        fix s' assume "relax_all d u (a # rest) s = Inr s'"
        then have "relax_all d u rest s1 = Inr s'" using run by simp
        with IH have post: "relax_post g start S R u d rest s1 s'" by blast
        then have sh: "shrinks s1 s'" unfolding relax_post_def by blast
        with one have "shrinks s s'" using shrinks_trans by blast
        moreover from sh v1 have "\<exists>c. distances s' v = Some c \<and> c \<le> add_weight d w"
          unfolding shrinks_def by blast
        ultimately show "relax_post g start S R u d (a # rest) s s'"
          using post a unfolding relax_post_def by auto
      qed
    next
      case False
      then have e: "dn \<le> add_weight d w" by simp
      have run: "relax_all d u (a # rest) s = relax_all d u rest s"
        using Some False a by (simp add: Let_def)
      have IH: "(\<forall>e. relax_all d u rest s = Inl e \<longrightarrow> (\<exists>v w. (v, w) \<in> set rest \<and> v \<notin> set (keys g))) \<and>
         (\<forall>s'. relax_all d u rest s = Inr s' \<longrightarrow> relax_post g start S R u d rest s s')"
        by (intro Cons.IH Cons.prems(1-8,10) rest)
      show ?thesis
      proof (intro conjI allI impI)
        fix e assume "relax_all d u (a # rest) s = Inl e"
        then have "relax_all d u rest s = Inl e" using run by simp
        with IH obtain v' w' where "(v', w') \<in> set rest" "v' \<notin> set (keys g)" by blast
        then show "\<exists>v w. (v, w) \<in> set (a # rest) \<and> v \<notin> set (keys g)" by auto
      next
        fix s' assume "relax_all d u (a # rest) s = Inr s'"
        then have "relax_all d u rest s = Inr s'" using run by simp
        with IH have post: "relax_post g start S R u d rest s s'" by blast
        then have sh: "shrinks s s'" unfolding relax_post_def by blast
        with Some obtain c where "distances s' v = Some c" "c \<le> dn"
          unfolding shrinks_def by blast
        with e have "\<exists>c. distances s' v = Some c \<and> c \<le> add_weight d w" by auto
        then show "relax_post g start S R u d (a # rest) s s'"
          using post a unfolding relax_post_def by auto
      qed
    qed
  qed
qed

section \<open>One round of the main loop\<close>

lemma nonneg_entries:
  "nonneg g \<Longrightarrow> map_of g u = Some nb \<Longrightarrow> (v, w) \<in> set nb \<Longrightarrow> 0 \<le> w"
  unfolding nonneg_def by (auto dest!: map_of_SomeD)

lemma closed_refs_entries:
  "closed_refs g \<Longrightarrow> map_of g u = Some nb \<Longrightarrow> (v, w) \<in> set nb \<Longrightarrow> v \<in> set (keys g)"
  unfolding closed_refs_def by (auto dest!: map_of_SomeD)

lemma round_order_settle:
  assumes "u \<in> set (keys g)" and "u \<notin> S"
  shows "((insert u S, s'), (S, s)) \<in> round_order g"
proof -
  have "set (keys g) - insert u S = (set (keys g) - S) - {u}" by blast
  moreover have "card ((set (keys g) - S) - {u}) < card (set (keys g) - S)"
    by (rule card_Diff1_less) (use assms in simp_all)
  ultimately show ?thesis unfolding round_order_def by simp
qed

lemma round_order_shorten:
  assumes "length (queue s') < length (queue s)"
  shows "((S, s'), (S, s)) \<in> round_order g"
  using assms unfolding round_order_def by simp

lemma loop_body_inv:
  assumes inv: "dinv g start S S s" and ne: "queue s \<noteq> []" and nn: "nonneg g"
  shows "(\<forall>e. loop_body g s = Inl e \<longrightarrow> \<not> closed_refs g) \<and>
         (\<forall>s'. loop_body g s = Inr s' \<longrightarrow>
            (\<exists>S'. dinv g start S' S' s' \<and> ((S', s'), (S, s)) \<in> round_order g))"
proof -
  from inv have idom: "inv_dom g s" and iq: "inv_queue S s" and iset: "inv_settled S s"
    and ipen: "inv_pending S s" and ist: "inv_start start s" and ich: "inv_chain g start S s"
    and irel: "inv_relaxed g S s"
    unfolding dinv_def by blast+
  obtain d u q where pop: "heappop (queue s) = ((d, u), q)" by (metis surj_pair)
  note hp = heappop_min [OF ne pop]
  from iq have dq: "distinct (queue s)" unfolding inv_queue_def by blast
  have setq: "set q = set (queue s) - {(d, u)}" unfolding hp(2) using dq by simp
  from iq hp(1) obtain e where d0: "Fin 0 \<le> d" and dfin: "d < Infinity"
    and dr: "representable d" and e: "distances s u = Some e" "e \<le> d" "u \<in> S \<longrightarrow> e < d"
    unfolding inv_queue_def by blast
  from idom e(1) have ukey: "u \<in> set (keys g)" unfolding inv_dom_def by blast
  then obtain nb where nb: "map_of g u = Some nb" by (auto simp: in_keys_iff)
  define s1 where "s1 = s\<lparr>queue := q\<rparr>"
  have s1: "distances s1 = distances s" "previous_nodes s1 = previous_nodes s" "queue s1 = q"
    by (simp_all add: s1_def)
  have len: "length q < length (queue s)"
    unfolding hp(2) using hp(1) by (simp add: length_remove1 ne)
  show ?thesis
  proof (cases "e < d")
    case True
    have run: "loop_body g s = Inr s1"
      using pop e(1) True by (simp add: loop_body_def s1_def)
    have "inv_dom g s1" using idom unfolding inv_dom_def s1 .
    moreover have "inv_queue S s1"
      using iq dq unfolding inv_queue_def s1 setq hp(2) by auto
    moreover have "inv_settled S s1"
      using iset unfolding inv_settled_def s1 setq by blast
    moreover have "inv_pending S s1"
      unfolding inv_pending_def s1 setq
    proof (intro allI impI)
      fix x c assume x: "x \<notin> S" "distances s x = Some c" "c < Infinity"
      with ipen have "(c, x) \<in> set (queue s)" unfolding inv_pending_def by blast
      moreover have "(c, x) \<noteq> (d, u)" using x(2) e(1) True by auto
      ultimately show "(c, x) \<in> set (queue s) - {(d, u)}" by blast
    qed
    moreover have "inv_start start s1" using ist unfolding inv_start_def s1 .
    moreover have "inv_chain g start S s1" using ich unfolding inv_chain_def s1 .
    moreover have "inv_relaxed g S s1" using irel unfolding inv_relaxed_def s1 .
    ultimately have "dinv g start S S s1" unfolding dinv_def by blast
    moreover have "((S, s1), (S, s)) \<in> round_order g"
      by (rule round_order_shorten) (simp add: s1 len)
    ultimately show ?thesis using run by auto
  next
    case False
    with e have ed: "e = d" and uS: "u \<notin> S" by auto
    let ?S = "insert u S"
    have run: "loop_body g s = relax_all d u nb s1"
      using pop e(1) False nb by (simp add: loop_body_def s1_def)
    have du: "distances s1 u = Some d" using e(1) ed by (simp add: s1)
    have "inv_dom g s1" using idom unfolding inv_dom_def s1 .
    moreover have "inv_queue ?S s1"
      unfolding inv_queue_def s1
    proof (intro conjI allI impI)
      show "distinct q" unfolding hp(2) using dq by simp
    next
      fix d' x assume "(d', x) \<in> set q"
      then have "(d', x) \<in> set (queue s)" unfolding setq by blast
      with iq show "Fin 0 \<le> d'" unfolding inv_queue_def by blast
    next
      fix d' x assume "(d', x) \<in> set q"
      then have "(d', x) \<in> set (queue s)" unfolding setq by blast
      with iq show "d' < Infinity" unfolding inv_queue_def by blast
    next
      fix d' x assume "(d', x) \<in> set q"
      then have "(d', x) \<in> set (queue s)" unfolding setq by blast
      with iq show "representable d'" unfolding inv_queue_def by blast
    next
      fix d' x assume m: "(d', x) \<in> set q"
      then have m': "(d', x) \<in> set (queue s)" and neq: "(d', x) \<noteq> (d, u)"
        unfolding setq by blast+
      with iq obtain c where c: "distances s x = Some c" "c \<le> d'" "x \<in> S \<longrightarrow> c < d'"
        unfolding inv_queue_def by blast
      have "c < d'" if "x = u"
      proof -
        from that c(1) e(1) ed have "c = d" by simp
        moreover from hp(3) [OF m'] have "d \<le> d'" .
        moreover from that neq have "d' \<noteq> d" by simp
        ultimately show ?thesis by simp
      qed
      with c show "\<exists>e. distances s x = Some e \<and> e \<le> d' \<and> (x \<in> ?S \<longrightarrow> e < d')"
        by auto
    qed
    moreover have "inv_settled ?S s1"
      unfolding inv_settled_def s1
    proof
      fix x assume "x \<in> ?S"
      then consider "x = u" | "x \<in> S" by blast
      then show "\<exists>e. distances s x = Some e \<and> e < Infinity \<and>
          (\<forall>d' y. (d', y) \<in> set q \<longrightarrow> e \<le> d')"
      proof cases
        case 1
        have "\<forall>d' y. (d', y) \<in> set q \<longrightarrow> d \<le> d'" using hp(3) unfolding setq by blast
        with 1 e(1) ed dfin show ?thesis by simp
      next
        case 2
        with iset show ?thesis unfolding inv_settled_def setq by blast
      qed
    qed
    moreover have "inv_pending ?S s1"
      unfolding inv_pending_def s1 setq
    proof (intro allI impI)
      fix x c assume x: "x \<notin> ?S" "distances s x = Some c" "c < Infinity"
      with ipen have "(c, x) \<in> set (queue s)" unfolding inv_pending_def by blast
      moreover have "(c, x) \<noteq> (d, u)" using x(1) by auto
      ultimately show "(c, x) \<in> set (queue s) - {(d, u)}" by blast
    qed
    moreover have "inv_start start s1" using ist unfolding inv_start_def s1 .
    moreover have "inv_chain g start ?S s1"
      using ich unfolding inv_chain_def s1 by blast
    moreover have "inv_relaxed g S s1" using irel unfolding inv_relaxed_def s1 .
    ultimately have inv1: "dinv g start ?S S s1" unfolding dinv_def by blast
    have bel: "below ?S s1 d"
      unfolding below_def s1
    proof
      fix x assume "x \<in> ?S"
      then consider "x = u" | "x \<in> S" by blast
      then show "\<exists>e. distances s x = Some e \<and> e \<le> d"
      proof cases
        case 1
        with e(1) ed show ?thesis by simp
      next
        case 2
        with iset hp(1) show ?thesis unfolding inv_settled_def by blast
      qed
    qed
    have ww: "\<forall>v w. (v, w) \<in> set nb \<longrightarrow> 0 \<le> w" using nonneg_entries [OF nn nb] by blast
    have loop: "(\<forall>e. relax_all d u nb s1 = Inl e \<longrightarrow> (\<exists>v w. (v, w) \<in> set nb \<and> v \<notin> set (keys g))) \<and>
         (\<forall>s'. relax_all d u nb s1 = Inr s' \<longrightarrow> relax_post g start ?S S u d nb s1 s')"
      by (rule relax_all_inv [OF inv1 _ _ du bel d0 dr nb _ ww]) auto
    show ?thesis
    proof (intro conjI allI impI)
      fix err assume "loop_body g s = Inl err"
      then have "relax_all d u nb s1 = Inl err" using run by simp
      with loop obtain v w where "(v, w) \<in> set nb" "v \<notin> set (keys g)" by blast
      then show "\<not> closed_refs g" using closed_refs_entries [OF _ nb] by blast
    next
      fix s' assume "loop_body g s = Inr s'"
      then have "relax_all d u nb s1 = Inr s'" using run by simp
      with loop have post: "relax_post g start ?S S u d nb s1 s'" by blast
      then have inv': "dinv g start ?S S s'" and du': "distances s' u = Some d"
        and rel: "\<forall>v w. (v, w) \<in> set nb \<longrightarrow> (\<exists>c. distances s' v = Some c \<and> c \<le> add_weight d w)"
        unfolding relax_post_def by blast+
      have "inv_relaxed g ?S s'"
        unfolding inv_relaxed_def
      proof (intro ballI allI impI)
        fix x c nb' v w
        assume x: "x \<in> ?S" and xc: "distances s' x = Some c"
          and m: "map_of g x = Some nb'" and vw: "(v, w) \<in> set nb'"
        from x consider "x = u" | "x \<in> S" by blast
        then show "\<exists>c'. distances s' v = Some c' \<and> c' \<le> add_weight c w"
        proof cases
          case 1
          with xc du' m nb have "c = d" "nb' = nb" by simp_all
          with rel vw show ?thesis by blast
        next
          case 2
          with inv' xc m vw show ?thesis unfolding dinv_def inv_relaxed_def by blast
        qed
      qed
      with inv' have "dinv g start ?S ?S s'" unfolding dinv_def by blast
      moreover have "((?S, s'), (S, s)) \<in> round_order g"
        by (rule round_order_settle [OF ukey uS])
      ultimately show "\<exists>S'. dinv g start S' S' s' \<and> ((S', s'), (S, s)) \<in> round_order g"
        by blast
    qed
  qed
qed

section \<open>The main loop ends, and what holds then\<close>

lemma wf_round_order: "wf (round_order g)"
  unfolding round_order_def by (intro wf_inv_image wf_lex_prod wf_less_than)

lemma main_loop_total:
  assumes nn: "nonneg g" and inv: "dinv g start S S s"
  shows "\<exists>r. main_loop g s = Some r \<and> loop_done g start r"
proof -
  have "\<forall>S s. x = (S, s) \<longrightarrow> dinv g start S S s \<longrightarrow>
          (\<exists>r. main_loop g s = Some r \<and> loop_done g start r)" for x
  proof (induction x rule: wf_induct_rule [OF wf_round_order [of g]])
    case (1 x)
    show ?case
    proof (intro allI impI)
      fix S s assume x: "x = (S, s)" and inv: "dinv g start S S s"
      show "\<exists>r. main_loop g s = Some r \<and> loop_done g start r"
      proof (cases "queue s = []")
        case True
        then have "main_loop g s = Some (Inr s)" by (subst main_loop.simps) simp
        moreover have "loop_done g start (Inr s)"
          unfolding loop_done_def using True inv by blast
        ultimately show ?thesis by blast
      next
        case False
        note body = loop_body_inv [OF inv False nn]
        show ?thesis
        proof (cases "loop_body g s")
          case (Inl e)
          then have "main_loop g s = Some (Inl e)" using False by (subst main_loop.simps) simp
          moreover have "loop_done g start (Inl e)"
            unfolding loop_done_def using body Inl by simp
          ultimately show ?thesis by blast
        next
          case (Inr s1)
          with body obtain S1 where s1: "dinv g start S1 S1 s1" "((S1, s1), (S, s)) \<in> round_order g"
            by blast
          have "main_loop g s = main_loop g s1" using False Inr by (subst main_loop.simps) simp
          moreover from "1.IH" [of "(S1, s1)"] s1 x
          have "\<exists>r. main_loop g s1 = Some r \<and> loop_done g start r" by blast
          ultimately show ?thesis by simp
        qed
      qed
    qed
  qed
  with inv show ?thesis by blast
qed

lemma final_lower:
  assumes inv: "dinv g start S S s" and q: "queue s = []" and cl: "closed_refs g"
  shows "walk g start p e \<Longrightarrow> \<exists>c. distances s (last p) = Some c \<and> c \<le> e"
proof (induction rule: walk.induct)
  case walk_start
  from inv show ?case unfolding dinv_def inv_start_def by simp
next
  case (walk_step p e nb v w)
  then obtain c where c: "distances s (last p) = Some c" "c \<le> e" by blast
  from inv have idom: "inv_dom g s" unfolding dinv_def by blast
  show ?case
  proof (cases "c < Infinity")
    case True
    have "last p \<in> S"
    proof (rule ccontr)
      assume "last p \<notin> S"
      with inv c(1) True have "(c, last p) \<in> set (queue s)"
        unfolding dinv_def inv_pending_def by blast
      with q show False by simp
    qed
    with inv c(1) walk_step.hyps(2,3) obtain c' where
      c': "distances s v = Some c'" "c' \<le> add_weight c w"
      unfolding dinv_def inv_relaxed_def by blast
    from c(2) have "add_weight c w \<le> add_weight e w" by (rule add_weight_mono)
    with c' show ?thesis by auto
  next
    case False
    then have "c = Infinity" by (simp add: not_less_Infinity)
    with c(2) have "e = Infinity" by (cases e) simp_all
    then have top: "add_weight e w = Infinity" by simp
    from closed_refs_entries [OF cl walk_step.hyps(2,3)] idom
    obtain c' where "distances s v = Some c'" unfolding inv_dom_def by blast
    then show ?thesis unfolding top by simp
  qed
qed

lemma final_finite:
  assumes inv: "dinv g start S S s" and d: "distances s t = Some e" and fin: "e < Infinity"
  shows "\<exists>p. walk_back (previous_nodes s) (Some t) [] = Some (Inr (rev p)) \<and>
           walk g start p e \<and> distinct p \<and> last p = t"
proof -
  from inv d fin obtain p where p: "chain (previous_nodes s) t p" "walk g start p e" "distinct p"
    unfolding dinv_def inv_chain_def by blast
  from walk_back_chain [OF p(1), of "[]"] chain_last [OF p(1)] p(2,3)
  show ?thesis by auto
qed

lemma final_infinite:
  assumes inv: "dinv g start S S s" and d: "distances s t = Some Infinity"
  shows "walk_back (previous_nodes s) (Some t) [] = Some (Inr [t])"
proof -
  from inv d have "previous_nodes s t = Some None" unfolding dinv_def inv_chain_def by blast
  then have "chain (previous_nodes s) t [t]" by (rule chain_root)
  from walk_back_chain [OF this, of "[]"] show ?thesis by simp
qed

lemma final_start:
  assumes inv: "dinv g start S S s"
  shows "distances s start = Some (Fin 0) \<and>
         walk_back (previous_nodes s) (Some start) [] = Some (Inr [start])"
proof -
  from inv have st: "distances s start = Some (Fin 0)" "previous_nodes s start = Some None"
    unfolding dinv_def inv_start_def by blast+
  from st(2) have "chain (previous_nodes s) start [start]" by (rule chain_root)
  from walk_back_chain [OF this, of "[]"] st(1) show ?thesis by simp
qed

lemma walk_reachable: "walk g s p e \<Longrightarrow> reachable g s (last p)"
proof (induction rule: walk.induct)
  case walk_start
  show ?case unfolding reachable_def by simp
next
  case (walk_step p e nb v w)
  then have "(last p, v) \<in> edges g" unfolding edges_def by blast
  with walk_step.IH show ?case unfolding reachable_def by (simp add: rtrancl_into_rtrancl)
qed

lemma reachable_walk: "reachable g s t \<Longrightarrow> \<exists>p e. walk g s p e \<and> last p = t"
  unfolding reachable_def
proof (induction rule: rtrancl_induct)
  case base
  have "walk g s [s] (Fin 0)" by (rule walk_start)
  then show ?case by (intro exI [of _ "[s]"] exI [of _ "Fin 0"]) simp
next
  case (step y z)
  then obtain p e where p: "walk g s p e" "last p = y" by blast
  from step.hyps(2) obtain nb w where "map_of g y = Some nb" "(z, w) \<in> set nb"
    unfolding edges_def by blast
  with p have "walk g s (p @ [z]) (add_weight e w)" by (intro walk_step) simp_all
  then show ?case by (intro exI [of _ "p @ [z]"] exI [of _ "add_weight e w"]) simp
qed

text \<open>What a query returns, from the state in which the main loop ends.\<close>

lemma dijkstra_run:
  assumes nn: "nonneg g" and cl: "closed_refs g" and st: "start \<in> set (keys g)"
  shows "\<exists>s S. main_loop g (init_state g start) = Some (Inr s) \<and> queue s = [] \<and>
           dinv g start S S s"
proof -
  from main_loop_total [OF nn dinv_init [OF st]]
  obtain r where r: "main_loop g (init_state g start) = Some r" "loop_done g start r" by blast
  from r(2) cl obtain s where "r = Inr s" unfolding loop_done_def by (cases r) auto
  with r show ?thesis unfolding loop_done_def by blast
qed

lemma dijkstra_finite:
  assumes run: "main_loop g (init_state g start) = Some (Inr s)" and q: "queue s = []"
    and inv: "dinv g start S S s" and d: "distances s t = Some e" and fin: "e < Infinity"
  shows "\<exists>p. dijkstra_shortest_path g start t = Some (Inr (p, e)) \<and>
           walk g start p e \<and> distinct p \<and> last p = t"
proof -
  from final_finite [OF inv d fin] obtain p where
    p: "walk_back (previous_nodes s) (Some t) [] = Some (Inr (rev p))" "walk g start p e"
      "distinct p" "last p = t" by blast
  have "dijkstra_shortest_path g start t = Some (Inr (p, e))"
    unfolding dijkstra_shortest_path_def by (simp add: run p(1) d)
  with p show ?thesis by blast
qed

lemma dijkstra_infinite:
  assumes run: "main_loop g (init_state g start) = Some (Inr s)"
    and inv: "dinv g start S S s" and d: "distances s t = Some Infinity"
  shows "dijkstra_shortest_path g start t = Some (Inr ([t], Infinity))"
  unfolding dijkstra_shortest_path_def
  by (simp add: run final_infinite [OF inv d] d)

section \<open>Walks and paths; the answer of a query\<close>

lemma route_entry: "route g x y = Some w \<Longrightarrow> \<exists>nb. map_of g x = Some nb \<and> (y, w) \<in> set nb"
  by (auto simp: route_def split: option.splits dest: map_of_SomeD)

lemma entry_route:
  assumes "wf_graph g" and "map_of g x = Some nb" and "(y, w) \<in> set nb"
  shows "route g x y = Some w"
proof -
  from assms(2) have "(x, nb) \<in> set g" by (rule map_of_SomeD)
  with assms(1) have "distinct (map fst nb)" unfolding wf_graph_def keys_def by blast
  from map_of_is_SomeI [OF this assms(3)] assms(2) show ?thesis by (simp add: route_def)
qed

lemma is_path_snoc:
  "p \<noteq> [] \<Longrightarrow> is_path g (p @ [v]) = (is_path g p \<and> route g (last p) v \<noteq> None)"
  by (induction g p rule: is_path.induct) auto

lemma path_weight_snoc:
  "p \<noteq> [] \<Longrightarrow> path_weight g (p @ [v]) = path_weight g p + route_weight g (last p) v"
  by (induction g p rule: path_weight.induct) auto

lemma weight_from_snoc:
  "p \<noteq> [] \<Longrightarrow> weight_from acc g (p @ [v]) =
     add_weight (weight_from acc g p) (route_weight g (last p) v)"
  by (induction acc g p rule: weight_from.induct) auto

lemma float_weight_snoc:
  "p \<noteq> [] \<Longrightarrow> float_weight g (p @ [v]) =
     add_weight (float_weight g p) (route_weight g (last p) v)"
  unfolding float_weight_def by (rule weight_from_snoc)

lemma walk_is_path:
  assumes "wf_graph g"
  shows "walk g s p e \<Longrightarrow> is_path g p \<and> float_weight g p = e"
proof (induction rule: walk.induct)
  case walk_start
  show ?case by (simp add: float_weight_def)
next
  case (walk_step p e nb v w)
  from walk_step.hyps(1) have ne: "p \<noteq> []" by (simp add: walk_nonempty)
  from entry_route [OF assms walk_step.hyps(2,3)] have "route g (last p) v = Some w" .
  with walk_step.IH ne show ?case
    by (simp add: is_path_snoc float_weight_snoc route_weight_def)
qed

lemma is_path_walk: "is_path g p \<Longrightarrow> walk g (hd p) p (float_weight g p)"
proof (induction p rule: rev_induct)
  case Nil
  then show ?case by simp
next
  case (snoc v q)
  show ?case
  proof (cases "q = []")
    case True
    show ?thesis unfolding True using walk_start [of g v] by (simp add: float_weight_def)
  next
    case False
    with snoc.prems obtain w where q: "is_path g q" and w: "route g (last q) v = Some w"
      by (auto simp: is_path_snoc)
    from route_entry [OF w] obtain nb where nb: "map_of g (last q) = Some nb" "(v, w) \<in> set nb"
      by blast
    from snoc.IH [OF q] have "walk g (hd q) q (float_weight g q)" .
    from walk_step [OF this nb] have "walk g (hd q) (q @ [v]) (add_weight (float_weight g q) w)" .
    with False w show ?thesis by (simp add: float_weight_snoc route_weight_def)
  qed
qed

lemma edge_route: "(x, y) \<in> edges g \<Longrightarrow> route g x y \<noteq> None"
proof -
  assume "(x, y) \<in> edges g"
  then obtain nb w where nb: "map_of g x = Some nb" "(y, w) \<in> set nb" unfolding edges_def by blast
  then have "y \<in> fst ` set nb" by force
  then have "map_of nb y \<noteq> None" by (simp add: map_of_eq_None_iff)
  with nb(1) show ?thesis by (simp add: route_def)
qed

lemma rtrancl_path_is_path:
  "rtrancl_path (\<lambda>u v. (u, v) \<in> edges g) x xs y \<Longrightarrow> is_path g (x # xs) \<and> last (x # xs) = y"
proof (induction rule: rtrancl_path.induct)
  case (base x)
  show ?case by simp
next
  case (step x y ys z)
  from edge_route [OF step.hyps(1)] step.IH show ?case by simp
qed

lemma reachable_simple_path:
  assumes "reachable g s t"
  shows "\<exists>p. simple_path g s t p"
proof -
  from assms have "(\<lambda>u v. (u, v) \<in> edges g)\<^sup>*\<^sup>* s t"
    unfolding reachable_def by (simp add: rtranclp_rtrancl_eq)
  then obtain xs where "rtrancl_path (\<lambda>u v. (u, v) \<in> edges g) s xs t"
    unfolding rtranclp_eq_rtrancl_path by blast
  then obtain xs' where xs': "rtrancl_path (\<lambda>u v. (u, v) \<in> edges g) s xs' t"
    and d: "distinct (s # xs')"
    by (rule rtrancl_path_distinct)
  from rtrancl_path_is_path [OF xs'] d have "simple_path g s t (s # xs')"
    unfolding simple_path_def by simp
  then show ?thesis ..
qed

lemma dijkstra_reached:
  assumes nn: "nonneg g" and cl: "closed_refs g" and st: "start \<in> set (keys g)"
    and reach: "reachable g start t"
  shows "\<exists>p e. dijkstra_shortest_path g start t = Some (Inr (p, e)) \<and>
           (\<forall>q c. walk g start q c \<longrightarrow> last q = t \<longrightarrow> e \<le> c) \<and>
           (e < Infinity \<longrightarrow> walk g start p e \<and> distinct p \<and> last p = t) \<and>
           (e = Infinity \<longrightarrow> p = [t])"
proof -
  from dijkstra_run [OF nn cl st] obtain s S where
    run: "main_loop g (init_state g start) = Some (Inr s)" and q: "queue s = []"
    and inv: "dinv g start S S s" by blast
  from reachable_walk [OF reach] obtain q0 c0 where "walk g start q0 c0" "last q0 = t" by blast
  with final_lower [OF inv q cl] obtain e where e: "distances s t = Some e" by blast
  have low: "e \<le> c" if "walk g start q' c" "last q' = t" for q' c
    using final_lower [OF inv q cl that(1)] that(2) e by simp
  show ?thesis
  proof (cases "e < Infinity")
    case True
    from dijkstra_finite [OF run q inv e True] obtain p where
      p: "dijkstra_shortest_path g start t = Some (Inr (p, e))" "walk g start p e"
        "distinct p" "last p = t" by blast
    with low True show ?thesis by auto
  next
    case False
    then have inf: "e = Infinity" by (simp add: not_less_Infinity)
    from dijkstra_infinite [OF run inv] e inf
    have "dijkstra_shortest_path g start t = Some (Inr ([t], e))" by simp
    with low inf show ?thesis by auto
  qed
qed

lemma dijkstra_unreached:
  assumes nn: "nonneg g" and cl: "closed_refs g" and st: "start \<in> set (keys g)"
    and t: "t \<in> set (keys g)" and unreach: "\<not> reachable g start t"
  shows "dijkstra_shortest_path g start t = Some (Inr ([t], Infinity))"
proof -
  from dijkstra_run [OF nn cl st] obtain s S where
    run: "main_loop g (init_state g start) = Some (Inr s)" and q: "queue s = []"
    and inv: "dinv g start S S s" by blast
  from inv t obtain dv where dv: "distances s t = Some dv"
    unfolding dinv_def inv_dom_def by blast
  have "dv = Infinity"
  proof (rule ccontr)
    assume "dv \<noteq> Infinity"
    then have "dv < Infinity" by (simp add: not_less_Infinity [symmetric])
    with final_finite [OF inv dv] obtain p where "walk g start p dv" "last p = t" by blast
    with walk_reachable unreach show False by blast
  qed
  with dijkstra_infinite [OF run inv] dv show ?thesis by simp
qed

section \<open>Whole distances are added exactly\<close>

lemma representable_weight_from:
  "representable acc \<Longrightarrow> representable (weight_from acc g p)"
  by (induction acc g p rule: weight_from.induct) (simp_all add: representable_add_weight)

lemma representable_float_weight: "representable (float_weight g p)"
  unfolding float_weight_def by (rule representable_weight_from [OF representable_zero])

lemma route_weight_nonneg: "nonneg g \<Longrightarrow> 0 \<le> route_weight g x y"
  unfolding route_weight_def nonneg_def
  by (auto split: option.splits dest!: route_entry map_of_SomeD)

lemma route_weight_whole: "whole_weights g \<Longrightarrow> route_weight g x y \<in> \<int>"
  unfolding route_weight_def whole_weights_def
  by (auto split: option.splits dest!: route_entry map_of_SomeD)

lemma path_weight_nonneg: "nonneg g \<Longrightarrow> 0 \<le> path_weight g p"
  by (induction g p rule: path_weight.induct) (simp_all add: route_weight_nonneg)

lemma path_weight_whole: "whole_weights g \<Longrightarrow> path_weight g p \<in> \<int>"
  by (induction g p rule: path_weight.induct) (simp_all add: route_weight_whole)

lemma round_double_whole:
  assumes "x \<in> \<int>" and "0 \<le> x" and "x < 2 ^ 53"
  shows "round_double x = Fin x"
proof -
  from assms(1) obtain n where n: "x = of_int n" by (auto elim: Ints_cases)
  with assms(2,3) have "0 \<le> n" "n < 2 ^ 53"
    by (simp_all add: of_int_less_numeral_power_cancel_iff)
  then have "\<bar>n\<bar> < 2 ^ 53" by simp
  from round_double_of_int [OF this] show ?thesis unfolding n .
qed

lemma float_weight_whole:
  assumes ww: "whole_weights g" and nn: "nonneg g"
  shows "(path_weight g p < 2 ^ 53 \<longrightarrow> float_weight g p = Fin (path_weight g p)) \<and>
         (2 ^ 53 \<le> path_weight g p \<longrightarrow> Fin (2 ^ 53) \<le> float_weight g p)"
proof (induction p rule: rev_induct)
  case Nil
  show ?case by (simp add: float_weight_def)
next
  case (snoc v q)
  show ?case
  proof (cases "q = []")
    case True
    show ?thesis unfolding True by (simp add: float_weight_def)
  next
    case False
    define a where "a = path_weight g q"
    define w where "w = route_weight g (last q) v"
    have a0: "0 \<le> a" unfolding a_def by (rule path_weight_nonneg [OF nn])
    have w0: "0 \<le> w" unfolding w_def by (rule route_weight_nonneg [OF nn])
    have aw: "a + w \<in> \<int>"
      unfolding a_def w_def by (intro Ints_add path_weight_whole route_weight_whole ww)
    have pw: "path_weight g (q @ [v]) = a + w"
      unfolding a_def w_def by (rule path_weight_snoc [OF False])
    have fw: "float_weight g (q @ [v]) = add_weight (float_weight g q) w"
      unfolding w_def by (rule float_weight_snoc [OF False])
    have two: "round_double (2 ^ 53) = Fin (2 ^ 53)" using round_double_power2 [of 53] by simp
    show ?thesis
    proof (cases "a < 2 ^ 53")
      case True
      with snoc.IH have fq: "float_weight g q = Fin a" unfolding a_def by simp
      show ?thesis
      proof (cases "a + w < 2 ^ 53")
        case True
        from a0 w0 have "0 \<le> a + w" by simp
        from round_double_whole [OF aw this True] True show ?thesis
          unfolding pw fw fq by simp
      next
        case False
        then have "2 ^ 53 \<le> a + w" by simp
        then have "round_double (2 ^ 53) \<le> round_double (a + w)" by (rule round_double_mono)
        with False show ?thesis unfolding pw fw fq two by simp
      qed
    next
      case False
      then have big: "2 ^ 53 \<le> a" by simp
      with snoc.IH have "Fin (2 ^ 53) \<le> float_weight g q" unfolding a_def by simp
      also have "\<dots> \<le> add_weight (float_weight g q) w"
        by (rule add_weight_increasing [OF representable_float_weight w0])
      finally have "Fin (2 ^ 53) \<le> float_weight g (q @ [v])" unfolding fw .
      moreover from big w0 have "\<not> a + w < 2 ^ 53" by simp
      ultimately show ?thesis unfolding pw by simp
    qed
  qed
qed

lemma least_weight_whole:
  assumes ww: "whole_weights g" and nn: "nonneg g"
    and lw: "least_weight g s t (Fin x)" and small: "x < 2 ^ 53"
  shows "least_real_weight g s t x"
proof -
  from lw obtain p where p: "simple_path g s t p" "float_weight g p = Fin x"
    and low: "\<forall>q. simple_path g s t q \<longrightarrow> Fin x \<le> float_weight g q"
    unfolding least_weight_def by blast
  note fw = float_weight_whole [OF ww nn]
  have "path_weight g p = x"
  proof (cases "path_weight g p < 2 ^ 53")
    case True
    with fw [of p] p(2) show ?thesis by simp
  next
    case False
    with fw [of p] p(2) small show ?thesis by simp
  qed
  moreover have "x \<le> path_weight g q" if "simple_path g s t q" for q
  proof (cases "path_weight g q < 2 ^ 53")
    case True
    with fw [of q] low that show ?thesis by fastforce
  next
    case False
    with small show ?thesis by simp
  qed
  ultimately show ?thesis using p(1) unfolding least_real_weight_def by blast
qed

section \<open>The queries on the seed graph\<close>

lemma round_double_zero: "round_double 0 = Fin 0"
  using round_double_of_int [of 0] by simp

lemma round_double_one: "round_double 1 = Fin 1"
  using round_double_of_int [of 1] by simp

lemma round_double_numeral:
  "(numeral k :: int) < 2 ^ 53 \<Longrightarrow> round_double (numeral k) = Fin (numeral k)"
  using round_double_of_int [of "numeral k"] by simp

lemmas run_simps = dijkstra_shortest_path_def init_state_def seed_graph_def keys_def
  main_loop.simps walk_back.simps loop_body_def heappop_def heappush_def
  round_double_zero round_double_one round_double_numeral Let_def

lemma seed_jauhar_korangi:
  "dijkstra_shortest_path seed_graph ''Jauhar'' ''Korangi'' =
     Some (Inr ([''Jauhar'', ''Malir'', ''Korangi''], Fin 11))"
  by (simp add: run_simps)

lemma seed_jauhar_defence:
  "dijkstra_shortest_path seed_graph ''Jauhar'' ''Defence'' =
     Some (Inr ([''Jauhar'', ''Malir'', ''Saddar'', ''Clifton'', ''Defence''], Fin 25))"
  by (simp add: run_simps)

text \<open>
  Claim C2 expects the path Jauhar, Gulshan, Malir, Korangi of length 12. The program does
  not return it: the direct route Jauhar--Malir of length 7 beats the detour over Gulshan
  of length 8.
\<close>

theorem seed_korangi_counterexample:
  "dijkstra_shortest_path seed_graph ''Jauhar'' ''Korangi'' \<noteq>
     Some (Inr ([''Jauhar'', ''Gulshan'', ''Malir'', ''Korangi''], Fin 12))"
  by (simp add: seed_jauhar_korangi)

text \<open>
  Claim C2 as amended. On the seed graph the query from Jauhar to Korangi returns the path
  Jauhar, Malir, Korangi and the distance 11.
\<close>

theorem seed_korangi_shortest:
  "dijkstra_shortest_path seed_graph ''Jauhar'' ''Korangi'' =
     Some (Inr ([''Jauhar'', ''Malir'', ''Korangi''], Fin 11))"
  by (rule seed_jauhar_korangi)

text \<open>
  Claim C3 expects the distance 21 over Jauhar, Gulshan, Malir, Saddar, Clifton, Defence.
  The program does not return it; no path of the seed graph from Jauhar to Defence is that
  short.
\<close>

theorem seed_defence_counterexample:
  "dijkstra_shortest_path seed_graph ''Jauhar'' ''Defence'' \<noteq>
     Some (Inr ([''Jauhar'', ''Gulshan'', ''Malir'', ''Saddar'', ''Clifton'', ''Defence''], Fin 21))"
  by (simp add: seed_jauhar_defence)

text \<open>
  Claim C3 as amended. On the seed graph the query from Jauhar to Defence returns the path
  Jauhar, Malir, Saddar, Clifton, Defence and the distance 25.
\<close>

theorem seed_defence_shortest:
  "dijkstra_shortest_path seed_graph ''Jauhar'' ''Defence'' =
     Some (Inr ([''Jauhar'', ''Malir'', ''Saddar'', ''Clifton'', ''Defence''], Fin 25))"
  by (rule seed_jauhar_defence)

section \<open>Every lookup finds its key\<close>

lemma inv_keys_init: "start \<in> set (keys g) \<Longrightarrow> inv_keys g (init_state g start)"
  unfolding inv_keys_def inv_dom_def
  by (auto simp: init_state_def heappush_def map_of_const dom_def split: if_splits)

lemma relax_all_keys:
  assumes "u \<in> set (keys g)" and "\<forall>v w. (v, w) \<in> set nbrs \<longrightarrow> v \<in> set (keys g)"
  shows "inv_keys g s \<Longrightarrow> \<exists>s'. relax_all d u nbrs s = Inr s' \<and> inv_keys g s'"
  using assms(2)
proof (induction nbrs arbitrary: s)
  case Nil
  then show ?case by simp
next
  case (Cons a rest)
  obtain v w where a: "a = (v, w)" by (cases a)
  with Cons.prems(2) have v: "v \<in> set (keys g)" by auto
  with Cons.prems(1) obtain dn where dn: "distances s v = Some dn"
    unfolding inv_keys_def inv_dom_def by blast
  let ?s1 = "s\<lparr>distances := (distances s)(v \<mapsto> add_weight d w),
                 previous_nodes := (previous_nodes s)(v \<mapsto> Some u),
                 queue := heappush (queue s) (add_weight d w, v)\<rparr>"
  have inv1: "inv_keys g ?s1"
    using Cons.prems(1) v assms(1) unfolding inv_keys_def inv_dom_def
    by (auto simp: heappush_def)
  from Cons.prems(2) have rest: "\<forall>v w. (v, w) \<in> set rest \<longrightarrow> v \<in> set (keys g)" by auto
  show ?case
  proof (cases "add_weight d w < dn")
    case True
    then have "relax_all d u (a # rest) s = relax_all d u rest ?s1"
      by (simp add: a dn Let_def)
    with Cons.IH [OF inv1 rest] show ?thesis by simp
  next
    case False
    then have "relax_all d u (a # rest) s = relax_all d u rest s"
      by (simp add: a dn Let_def)
    with Cons.IH [OF Cons.prems(1) rest] show ?thesis by simp
  qed
qed

lemma loop_body_keys:
  assumes cl: "closed_refs g" and inv: "inv_keys g s" and ne: "queue s \<noteq> []"
  shows "\<exists>s'. loop_body g s = Inr s' \<and> inv_keys g s'"
proof -
  obtain d u q where pop: "heappop (queue s) = ((d, u), q)" by (metis surj_pair)
  note hp = heappop_min [OF ne pop]
  from inv hp(1) have u: "u \<in> set (keys g)" unfolding inv_keys_def by blast
  with inv obtain dc where dc: "distances s u = Some dc"
    unfolding inv_keys_def inv_dom_def by blast
  from u obtain nb where nb: "map_of g u = Some nb" by (auto simp: in_keys_iff)
  have "set q \<subseteq> set (queue s)" unfolding hp(2) by (rule set_remove1_subset)
  with inv have inv1: "inv_keys g (s\<lparr>queue := q\<rparr>)"
    unfolding inv_keys_def inv_dom_def by auto
  have "\<forall>v w. (v, w) \<in> set nb \<longrightarrow> v \<in> set (keys g)"
    using closed_refs_entries [OF cl nb] by blast
  from relax_all_keys [OF u this inv1, of d] inv1 show ?thesis
    by (simp add: loop_body_def pop dc nb)
qed

lemma main_loop_keys:
  "main_loop g s = Some r \<Longrightarrow> closed_refs g \<longrightarrow> inv_keys g s \<longrightarrow> (\<exists>s'. r = Inr s' \<and> inv_keys g s')"
proof (induction rule: main_loop.raw_induct [rotated, consumes 1])
  case (1 main_loop' g s r)
  show ?case
  proof (intro impI)
    assume cl: "closed_refs g" and inv: "inv_keys g s"
    show "\<exists>s'. r = Inr s' \<and> inv_keys g s'"
    proof (cases "queue s = []")
      case True
      with 1(2) inv show ?thesis by auto
    next
      case False
      from loop_body_keys [OF cl inv False] obtain s1 where
        s1: "loop_body g s = Inr s1" "inv_keys g s1" by blast
      with 1(2) False have "main_loop' g s1 = Some r" by simp
      then have "closed_refs g \<longrightarrow> inv_keys g s1 \<longrightarrow> (\<exists>s'. r = Inr s' \<and> inv_keys g s')"
        by (rule 1(1))
      with cl s1(2) show ?thesis by blast
    qed
  qed
qed

lemma walk_back_keys:
  "walk_back prev current acc = Some r \<Longrightarrow>
     (\<forall>x u. prev x = Some (Some u) \<longrightarrow> u \<in> dom prev) \<longrightarrow>
     (\<forall>c. current = Some c \<longrightarrow> c \<in> dom prev) \<longrightarrow> (\<exists>p. r = Inr p)"
proof (induction rule: walk_back.raw_induct [rotated, consumes 1])
  case (1 walk_back' prev current acc r)
  show ?case
  proof (intro impI)
    assume cl: "\<forall>x u. prev x = Some (Some u) \<longrightarrow> u \<in> dom prev"
      and cur: "\<forall>c. current = Some c \<longrightarrow> c \<in> dom prev"
    show "\<exists>p. r = Inr p"
    proof (cases current)
      case None
      with 1(2) show ?thesis by auto
    next
      case (Some c)
      with cur obtain pc where pc: "prev c = Some pc" by blast
      with 1(2) Some have run: "walk_back' prev pc (acc @ [c]) = Some r" by simp
      have "\<forall>c'. pc = Some c' \<longrightarrow> c' \<in> dom prev" using cl pc by blast
      moreover from run have "(\<forall>x u. prev x = Some (Some u) \<longrightarrow> u \<in> dom prev) \<longrightarrow>
         (\<forall>c'. pc = Some c' \<longrightarrow> c' \<in> dom prev) \<longrightarrow> (\<exists>p. r = Inr p)"
        by (rule 1(1))
      ultimately show ?thesis using cl by blast
    qed
  qed
qed

section \<open>The main loop ends on every graph\<close>

lemma representable_units:
  assumes "representable (Fin x)"
  shows "\<exists>k. x * 2 ^ 1074 = of_int k \<and> \<bar>k\<bar> < 2 ^ 2098"
proof -
  define m where "m = round_units (\<bar>x\<bar> * 2 ^ 1074)"
  have m0: "0 \<le> m" unfolding m_def by (simp add: round_units_nonneg)
  from assms have "round_double x = Fin x" by simp
  then have fin: "m < 2 ^ 2098" and x: "x = sgn x * of_int m / 2 ^ 1074"
    unfolding m_def by (auto simp: round_double_def Let_def split: if_splits)
  have mz: "m = 0" if "x = 0" unfolding m_def that by simp
  define k where "k = (if x < 0 then - m else m)"
  have "sgn x * of_int m = of_int k" unfolding k_def using mz by (simp add: sgn_if)
  with x have "x = of_int k / 2 ^ 1074" by simp
  then have "x * 2 ^ 1074 = of_int k" by simp
  moreover have "\<bar>k\<bar> = m" unfolding k_def using m0 by simp
  ultimately show ?thesis using fin by blast
qed

lemma rank_mono:
  assumes "representable a" and "representable b" and "a < b"
  shows "rank a < rank b"
proof (cases a)
  case NegInfinity
  with assms(3) show ?thesis by (cases b) simp_all
next
  case Infinity
  with assms(3) show ?thesis by simp
next
  case a: (Fin x)
  from representable_units [OF assms(1) [unfolded a]] obtain k where
    k: "x * 2 ^ 1074 = of_int k" "\<bar>k\<bar> < 2 ^ 2098" by blast
  have rx: "rank a = nat (k + 2 ^ 2098) + 1" unfolding a rank.simps k(1) by simp
  show ?thesis
  proof (cases b)
    case NegInfinity
    with assms(3) show ?thesis by simp
  next
    case Infinity
    have "nat (k + 2 ^ 2098) < nat (2 ^ 2098 + 2 ^ 2098)" using k(2) by simp
    also have "\<dots> = 2 ^ 2099" by (simp add: nat_add_distrib nat_power_eq)
    finally have "nat (k + 2 ^ 2098) + 1 < 2 ^ 2099 + 2" by simp
    then show ?thesis unfolding rx Infinity by simp
  next
    case b: (Fin y)
    from representable_units [OF assms(2) [unfolded b]] obtain l where
      l: "y * 2 ^ 1074 = of_int l" "\<bar>l\<bar> < 2 ^ 2098" by blast
    have ry: "rank b = nat (l + 2 ^ 2098) + 1" unfolding b rank.simps l(1) by simp
    from assms(3) have "x < y" unfolding a b by simp
    then have "x * 2 ^ 1074 < y * 2 ^ 1074" by simp
    then have "k < l" unfolding k(1) l(1) by simp
    with k(2) l(2) have "nat (k + 2 ^ 2098) < nat (l + 2 ^ 2098)" by simp
    then show ?thesis unfolding rx ry by simp
  qed
qed

lemma total_rank_lower:
  assumes v: "v \<in> set (keys g)" and old: "distances s v = Some dn"
    and ro: "representable dn" and rc: "representable c" and lt: "c < dn"
    and s': "distances s' = (distances s)(v \<mapsto> c)"
  shows "total_rank g s' < total_rank g s"
  unfolding total_rank_def
proof (rule sum_strict_mono_ex1)
  show "finite (set (keys g))" by simp
  show "\<forall>x \<in> set (keys g). (case distances s' x of None \<Rightarrow> 0 | Some e \<Rightarrow> rank e)
      \<le> (case distances s x of None \<Rightarrow> 0 | Some e \<Rightarrow> rank e)"
    using rank_mono [OF rc ro lt] old by (auto simp: s')
  show "\<exists>a \<in> set (keys g). (case distances s' a of None \<Rightarrow> 0 | Some e \<Rightarrow> rank e)
      < (case distances s a of None \<Rightarrow> 0 | Some e \<Rightarrow> rank e)"
    using rank_mono [OF rc ro lt] old v by (intro bexI [of _ v]) (simp_all add: s')
qed

lemma reachable_step:
  "reachable g start u \<Longrightarrow> map_of g u = Some nb \<Longrightarrow> (v, w) \<in> set nb \<Longrightarrow> reachable g start v"
proof -
  assume r: "reachable g start u" and "map_of g u = Some nb" "(v, w) \<in> set nb"
  then have "(u, v) \<in> edges g" unfolding edges_def by blast
  with r show ?thesis unfolding reachable_def by (simp add: rtrancl_into_rtrancl)
qed

lemma ginv_init:
  assumes "start \<in> set (keys g)"
  shows "ginv g start (init_state g start)"
proof -
  let ?s = "init_state g start"
  have d: "distances ?s x = (if x = start then Some (Fin 0) else if x \<in> set (keys g) then Some Infinity else None)" for x
    by (simp add: init_state_def map_of_const)
  have p: "previous_nodes ?s x = (if x \<in> set (keys g) then Some None else None)" for x
    by (simp add: init_state_def map_of_const)
  have q: "queue ?s = [(Fin 0, start)]" by (simp add: init_state_def heappush_def)
  have r: "reachable g start start" unfolding reachable_def by simp
  have "inv_doubles ?s"
    unfolding inv_doubles_def using representable_zero by (auto simp: d split: if_splits)
  moreover have "inv_reached g start ?s"
    unfolding inv_reached_def using r by (auto simp: q d p)
  ultimately show ?thesis unfolding ginv_def using inv_keys_init [OF assms] by blast
qed

lemma relax_all_general:
  assumes u: "u \<in> set (keys g)" and ru: "reachable g start u"
    and nb: "map_of g u = Some nb"
  shows "ginv g start s \<Longrightarrow> set nbrs \<subseteq> set nb \<Longrightarrow>
         \<forall>v w. (v, w) \<in> set nbrs \<longrightarrow> v \<in> set (keys g) \<Longrightarrow>
         \<exists>s'. relax_all d u nbrs s = Inr s' \<and> ginv g start s' \<and>
           total_rank g s' \<le> total_rank g s \<and>
           (total_rank g s' = total_rank g s \<longrightarrow> queue s' = queue s)"
proof (induction nbrs arbitrary: s)
  case Nil
  then show ?case by simp
next
  case (Cons a rest)
  obtain v w where a: "a = (v, w)" by (cases a)
  from Cons.prems(2) a have vw: "(v, w) \<in> set nb" and rest: "set rest \<subseteq> set nb" by auto
  from Cons.prems(3) a have v: "v \<in> set (keys g)"
    and keys: "\<forall>v w. (v, w) \<in> set rest \<longrightarrow> v \<in> set (keys g)" by auto
  from Cons.prems(1) have ik: "inv_keys g s" and idb: "inv_doubles s"
    and ir: "inv_reached g start s" unfolding ginv_def by blast+
  from ik v obtain dn where dn: "distances s v = Some dn"
    unfolding inv_keys_def inv_dom_def by blast
  define c where "c = add_weight d w"
  show ?case
  proof (cases "c < dn")
    case True
    define s1 where "s1 = s\<lparr>distances := (distances s)(v \<mapsto> c),
                   previous_nodes := (previous_nodes s)(v \<mapsto> Some u),
                   queue := heappush (queue s) (c, v)\<rparr>"
    have run: "relax_all d u (a # rest) s = relax_all d u rest s1"
      using True dn a by (simp add: s1_def c_def Let_def)
    have rv: "reachable g start v" by (rule reachable_step [OF ru nb vw])
    have rc: "representable c" unfolding c_def by (rule representable_add_weight)
    have "inv_keys g s1"
      using ik v u unfolding inv_keys_def inv_dom_def s1_def by (auto simp: heappush_def)
    moreover have "inv_doubles s1"
      using idb rc unfolding inv_doubles_def s1_def by auto
    moreover have "inv_reached g start s1"
      using ir rv unfolding inv_reached_def s1_def by (auto simp: heappush_def)
    ultimately have g1: "ginv g start s1" unfolding ginv_def by blast
    from idb dn have "representable dn" unfolding inv_doubles_def by blast
    from total_rank_lower [OF v dn this rc True, of s1]
    have less: "total_rank g s1 < total_rank g s" by (simp add: s1_def)
    from Cons.IH [OF g1 rest keys] obtain s' where
      s': "relax_all d u rest s1 = Inr s'" "ginv g start s'"
        "total_rank g s' \<le> total_rank g s1" by blast
    with less run show ?thesis by auto
  next
    case False
    then have run: "relax_all d u (a # rest) s = relax_all d u rest s"
      using dn a by (simp add: c_def Let_def)
    from Cons.IH [OF Cons.prems(1) rest keys] run show ?thesis by simp
  qed
qed

lemma loop_body_general:
  assumes cl: "closed_refs g" and inv: "ginv g start s" and ne: "queue s \<noteq> []"
  shows "\<exists>s'. loop_body g s = Inr s' \<and> ginv g start s' \<and> (s', s) \<in> rank_order g"
proof -
  from inv have ik: "inv_keys g s" and idb: "inv_doubles s"
    and ir: "inv_reached g start s" unfolding ginv_def by blast+
  obtain d u q where pop: "heappop (queue s) = ((d, u), q)" by (metis surj_pair)
  note hp = heappop_min [OF ne pop]
  from ik hp(1) have u: "u \<in> set (keys g)" unfolding inv_keys_def by blast
  from ir hp(1) have ru: "reachable g start u" unfolding inv_reached_def by blast
  from ik u obtain dc where dc: "distances s u = Some dc"
    unfolding inv_keys_def inv_dom_def by blast
  from u obtain nb where nb: "map_of g u = Some nb" by (auto simp: in_keys_iff)
  define s1 where "s1 = s\<lparr>queue := q\<rparr>"
  have sub: "set q \<subseteq> set (queue s)" unfolding hp(2) by (rule set_remove1_subset)
  have len: "length q < length (queue s)"
    unfolding hp(2) using hp(1) by (simp add: length_remove1 ne)
  have "inv_keys g s1" using ik sub unfolding inv_keys_def inv_dom_def s1_def by auto
  moreover have "inv_doubles s1" using idb unfolding inv_doubles_def s1_def by simp
  moreover have "inv_reached g start s1"
    using ir sub unfolding inv_reached_def s1_def by auto
  ultimately have g1: "ginv g start s1" unfolding ginv_def by blast
  have tr: "total_rank g s1 = total_rank g s" by (simp add: total_rank_def s1_def)
  have q1: "queue s1 = q" by (simp add: s1_def)
  show ?thesis
  proof (cases "dc < d")
    case True
    then have "loop_body g s = Inr s1" using pop dc by (simp add: loop_body_def s1_def)
    moreover have "(s1, s) \<in> rank_order g" unfolding rank_order_def using tr q1 len by simp
    ultimately show ?thesis using g1 by blast
  next
    case False
    then have run: "loop_body g s = relax_all d u nb s1"
      using pop dc nb by (simp add: loop_body_def s1_def)
    have keys: "\<forall>v w. (v, w) \<in> set nb \<longrightarrow> v \<in> set (keys g)"
      using closed_refs_entries [OF cl nb] by blast
    from relax_all_general [OF u ru nb g1 _ keys, of d] obtain s' where
      s': "relax_all d u nb s1 = Inr s'" "ginv g start s'"
        "total_rank g s' \<le> total_rank g s1"
        "total_rank g s' = total_rank g s1 \<longrightarrow> queue s' = queue s1" by auto
    have "(s', s) \<in> rank_order g"
    proof (cases "total_rank g s' = total_rank g s1")
      case True
      with s'(4) have "queue s' = q" by (simp add: q1)
      with True tr len show ?thesis unfolding rank_order_def by simp
    next
      case False
      with s'(3) tr show ?thesis unfolding rank_order_def by simp
    qed
    with s'(1,2) run show ?thesis by simp
  qed
qed

lemma wf_rank_order: "wf (rank_order g)"
  unfolding rank_order_def by (intro wf_inv_image wf_lex_prod wf_less_than)

lemma main_loop_general:
  assumes cl: "closed_refs g"
  shows "ginv g start s \<Longrightarrow> \<exists>s'. main_loop g s = Some (Inr s') \<and> queue s' = [] \<and> ginv g start s'"
proof (induction s rule: wf_induct_rule [OF wf_rank_order [of g]])
  case (1 s)
  show ?case
  proof (cases "queue s = []")
    case True
    then have "main_loop g s = Some (Inr s)" by (subst main_loop.simps) simp
    with True 1(2) show ?thesis by blast
  next
    case False
    from loop_body_general [OF cl 1(2) False] obtain s1 where
      s1: "loop_body g s = Inr s1" "ginv g start s1" "(s1, s) \<in> rank_order g" by blast
    have "main_loop g s = main_loop g s1" using False s1(1) by (subst main_loop.simps) simp
    with 1(1) [OF s1(3) s1(2)] show ?thesis by simp
  qed
qed

lemma dijkstra_unreached_general:
  assumes cl: "closed_refs g" and st: "start \<in> set (keys g)"
    and t: "t \<in> set (keys g)" and unreach: "\<not> reachable g start t"
  shows "dijkstra_shortest_path g start t = Some (Inr ([t], Infinity))"
proof -
  from main_loop_general [OF cl ginv_init [OF st]] obtain s where
    run: "main_loop g (init_state g start) = Some (Inr s)" and inv: "ginv g start s" by blast
  from inv t unreach have d: "distances s t = Some Infinity" "previous_nodes s t = Some None"
    unfolding ginv_def inv_reached_def by blast+
  from d(2) have "chain (previous_nodes s) t [t]" by (rule chain_root)
  from walk_back_chain [OF this, of "[]"]
  have "walk_back (previous_nodes s) (Some t) [] = Some (Inr [t])" by simp
  with run d(1) show ?thesis unfolding dijkstra_shortest_path_def by simp
qed

section \<open>Facts about the example graphs\<close>

lemma nonneg_seed_graph: "nonneg seed_graph"
  by (simp add: nonneg_def seed_graph_def)

lemma closed_refs_seed_graph: "closed_refs seed_graph"
  by (simp add: closed_refs_def seed_graph_def keys_def)

lemma wf_seed_graph: "wf_graph seed_graph"
  by (simp add: wf_graph_def seed_graph_def keys_def)

lemma whole_weights_seed_graph: "whole_weights seed_graph"
  by (simp add: whole_weights_def seed_graph_def)

lemma store_inv_seed_graph: "store_inv seed_graph"
  unfolding store_inv_def
  by (intro conjI symmetric_seed_graph nonneg_seed_graph closed_refs_seed_graph)

lemma reachable_seed_korangi: "reachable seed_graph ''Jauhar'' ''Korangi''"
proof -
  have "(''Jauhar'', ''Malir'') \<in> edges seed_graph" "(''Malir'', ''Korangi'') \<in> edges seed_graph"
    by (simp_all add: edges_def seed_graph_def)
  then show ?thesis unfolding reachable_def by (meson rtrancl.simps)
qed

lemma nonneg_isolated_graph: "nonneg isolated_graph"
  by (simp add: nonneg_def isolated_graph_def)

lemma closed_refs_isolated_graph: "closed_refs isolated_graph"
  by (simp add: closed_refs_def isolated_graph_def keys_def)

lemma no_incoming_unreachable:
  assumes "\<And>u nb w. map_of g u = Some nb \<Longrightarrow> (t, w) \<notin> set nb" and "s \<noteq> t"
  shows "\<not> reachable g s t"
proof
  assume "reachable g s t"
  then have "(s, t) \<in> (edges g)\<^sup>*" unfolding reachable_def .
  then show False
  proof (cases rule: rtranclE)
    case base
    with assms(2) show False by simp
  next
    case (step y)
    then show False using assms(1) unfolding edges_def by blast
  qed
qed

lemma isolated_no_incoming:
  "map_of isolated_graph u = Some nb \<Longrightarrow> (''Z'', w) \<notin> set nb"
  by (auto simp: isolated_graph_def split: if_splits)

lemma unreachable_isolated_A: "\<not> reachable isolated_graph ''A'' ''Z''"
  by (rule no_incoming_unreachable [OF isolated_no_incoming]) simp_all

lemma unreachable_isolated_B: "\<not> reachable isolated_graph ''B'' ''Z''"
  by (rule no_incoming_unreachable [OF isolated_no_incoming]) simp_all

lemmas isolated_run_simps = dijkstra_shortest_path_def init_state_def isolated_graph_def keys_def
  main_loop.simps walk_back.simps loop_body_def heappop_def heappush_def
  round_double_zero round_double_one round_double_numeral Let_def

lemma isolated_A_Z:
  "dijkstra_shortest_path isolated_graph ''A'' ''Z'' = Some (Inr ([''Z''], Infinity))"
  by (simp add: isolated_run_simps)

lemma seed_keys:
  "''Jauhar'' \<in> set (keys seed_graph)" "''Korangi'' \<in> set (keys seed_graph)"
  "''Malir'' \<in> set (keys seed_graph)" "''Defence'' \<in> set (keys seed_graph)"
  by (simp_all add: seed_graph_def keys_def)

lemma isolated_keys:
  "''A'' \<in> set (keys isolated_graph)" "''B'' \<in> set (keys isolated_graph)"
  "''Z'' \<in> set (keys isolated_graph)"
  by (simp_all add: isolated_graph_def keys_def)

lemma closed_refs_negative_graph: "closed_refs negative_graph"
  by (simp add: closed_refs_def negative_graph_def keys_def)

lemma negative_no_incoming:
  "map_of negative_graph u = Some nb \<Longrightarrow> (''Z'', w) \<notin> set nb"
  by (auto simp: negative_graph_def split: if_splits)

lemma unreachable_negative: "\<not> reachable negative_graph ''A'' ''Z''"
  by (rule no_incoming_unreachable [OF negative_no_incoming]) simp_all

lemma negative_keys:
  "''A'' \<in> set (keys negative_graph)" "''Z'' \<in> set (keys negative_graph)"
  by (simp_all add: negative_graph_def keys_def)

lemma wf_row_graph: "wf_graph (row_graph w)"
  by (simp add: wf_graph_def row_graph_def keys_def)

lemma store_inv_row_graph: "0 \<le> w \<Longrightarrow> store_inv (row_graph w)"
  unfolding store_inv_def
proof (intro conjI)
  show "symmetric (row_graph w)"
    by (rule symmetric_entries_symmetric) (simp add: symmetric_entries_def row_graph_def route_def)
  show "0 \<le> w \<Longrightarrow> nonneg (row_graph w)" by (simp add: nonneg_def row_graph_def)
  show "closed_refs (row_graph w)" by (simp add: closed_refs_def row_graph_def keys_def)
qed

lemma row_keys: "''A'' \<in> set (keys (row_graph w))" "''C'' \<in> set (keys (row_graph w))"
  by (simp_all add: row_graph_def keys_def)

lemma row_simple_path: "simple_path (row_graph w) ''A'' ''C'' [''A'', ''B'', ''C'']"
  by (simp add: simple_path_def row_graph_def route_def)

lemma row_path_weight: "path_weight (row_graph w) [''A'', ''B'', ''C''] = w + w"
  by (simp add: row_graph_def route_def route_weight_def)

lemma row_reachable: "reachable (row_graph w) ''A'' ''C''"
proof -
  have "(''A'', ''B'') \<in> edges (row_graph w)" "(''B'', ''C'') \<in> edges (row_graph w)"
    by (simp_all add: edges_def row_graph_def)
  then show ?thesis unfolding reachable_def by (meson rtrancl.simps)
qed

lemma row_overflow:
  assumes "round_double w = Fin w" and "round_double (w + w) = Infinity" and "0 < w"
  shows "dijkstra_shortest_path (row_graph w) ''A'' ''C'' = Some (Inr ([''C''], Infinity))"
proof -
  have "round_double (2 * w) = Infinity" using assms(2) by simp
  with assms(1,3) show ?thesis
    by (simp add: dijkstra_shortest_path_def init_state_def row_graph_def keys_def
        main_loop.simps walk_back.simps loop_body_def heappop_def heappush_def Let_def)
qed

lemma overflow_A_C:
  "dijkstra_shortest_path overflow_graph ''A'' ''C'' = Some (Inr ([''C''], Infinity))"
  unfolding overflow_graph_def
proof (rule row_overflow)
  show "round_double (2 ^ 1023) = Fin (2 ^ 1023)" by (simp only: round_double_power2) simp
  have "(2::real) ^ 1023 + 2 ^ 1023 = 2 ^ 1024" by simp
  then show "round_double (2 ^ 1023 + 2 ^ 1023) = Infinity"
    by (simp only: round_double_power2) simp
  show "(0::real) < 2 ^ 1023" by simp
qed

section \<open>The claims about the query\<close>

text \<open>
  Claim C1 says that the distance returned is the least sum of the distances along a simple
  path. In \<open>overflow_graph\<close>, which has the store's invariants, the place \<open>C\<close> is reachable
  from \<open>A\<close> along the simple path \<open>A\<close>, \<open>B\<close>, \<open>C\<close>, and the distances along it sum to
  \<^verbatim>\<open>2**1024\<close>. The query from \<open>A\<close> to \<open>C\<close> returns the infinite distance instead, with the
  path \<open>[C]\<close>: the float sum of the two distances overflows, and the infinite sum is not
  less than the infinite distance that \<open>C\<close> starts with.
\<close>

theorem dijkstra_overflow_counterexample:
  "wf_graph overflow_graph \<and> store_inv overflow_graph \<and>
   ''A'' \<in> set (keys overflow_graph) \<and> ''C'' \<in> set (keys overflow_graph) \<and>
   reachable overflow_graph ''A'' ''C'' \<and>
   simple_path overflow_graph ''A'' ''C'' [''A'', ''B'', ''C''] \<and>
   path_weight overflow_graph [''A'', ''B'', ''C''] = 2 ^ 1024 \<and>
   dijkstra_shortest_path overflow_graph ''A'' ''C'' = Some (Inr ([''C''], Infinity))"
proof -
  have "path_weight overflow_graph [''A'', ''B'', ''C''] = 2 ^ 1024"
    unfolding overflow_graph_def row_path_weight by simp
  moreover have "store_inv overflow_graph"
    unfolding overflow_graph_def by (rule store_inv_row_graph) simp
  ultimately show ?thesis
    using overflow_A_C
    unfolding overflow_graph_def
    by (simp add: wf_row_graph row_keys row_reachable row_simple_path del: power_numeral)
qed

text \<open>
  Claim C1 as amended. On a graph that has the store's invariants, for a source and a
  destination of the graph with the destination reachable from the source, the distance
  that the query returns is the least weight of a simple path from the source to the
  destination when the weight of a path is added up as the program adds it, in float
  arithmetic from the source on: some simple path has this weight and none has a smaller
  one. When the distance returned is finite, the path returned is such a simple path. When
  moreover every distance of the graph is a whole number and the distance returned is below
  \<^verbatim>\<open>2**53\<close>, it is the least sum of the distances along a simple path, as the claim says.
\<close>

theorem dijkstra_distance_is_minimum:
  assumes wf: "wf_graph g" and si: "store_inv g"
    and s: "source \<in> set (keys g)" and t: "destination \<in> set (keys g)"
    and reach: "reachable g source destination"
  shows "\<exists>p d. dijkstra_shortest_path g source destination = Some (Inr (p, d)) \<and>
           least_weight g source destination d \<and>
           (d < Infinity \<longrightarrow> simple_path g source destination p \<and> float_weight g p = d) \<and>
           (\<forall>x. whole_weights g \<longrightarrow> d = Fin x \<longrightarrow> x < 2 ^ 53 \<longrightarrow>
              least_real_weight g source destination x)"
proof -
  from si have nn: "nonneg g" and cl: "closed_refs g" unfolding store_inv_def by blast+
  from dijkstra_reached [OF nn cl s reach] obtain p e where
    res: "dijkstra_shortest_path g source destination = Some (Inr (p, e))"
    and low: "\<forall>q c. walk g source q c \<longrightarrow> last q = destination \<longrightarrow> e \<le> c"
    and fin: "e < Infinity \<longrightarrow> walk g source p e \<and> distinct p \<and> last p = destination"
    by blast
  have lower: "e \<le> float_weight g q" if "simple_path g source destination q" for q
  proof -
    from that have "is_path g q" "hd q = source" "last q = destination"
      unfolding simple_path_def by simp_all
    with is_path_walk [of g q] have "walk g source q (float_weight g q)" by simp
    with low \<open>last q = destination\<close> show ?thesis by blast
  qed
  have found: "simple_path g source destination p \<and> float_weight g p = e" if "e < Infinity"
  proof -
    from fin that have p: "walk g source p e" "distinct p" "last p = destination" by blast+
    from walk_is_path [OF wf p(1)] have "is_path g p" "float_weight g p = e" by simp_all
    moreover from walk_nonempty [OF p(1)] have "hd p = source" by simp
    ultimately show ?thesis using p unfolding simple_path_def by simp
  qed
  have "\<exists>q. simple_path g source destination q \<and> float_weight g q = e"
  proof (cases "e < Infinity")
    case True
    with found show ?thesis by blast
  next
    case False
    then have inf: "e = Infinity" by (simp add: not_less_Infinity)
    from reachable_simple_path [OF reach] obtain q where q: "simple_path g source destination q" ..
    from lower [OF q] inf have "float_weight g q = Infinity"
      by (cases "float_weight g q") simp_all
    with q inf show ?thesis by blast
  qed
  with lower have lw: "least_weight g source destination e" unfolding least_weight_def by blast
  have "least_real_weight g source destination x"
    if "whole_weights g" "e = Fin x" "x < 2 ^ 53" for x
    using least_weight_whole [OF that(1) nn _ that(3)] lw that(2) by simp
  with res lw found show ?thesis by blast
qed

text \<open>
  The amended claim C1 at the seed graph, from Jauhar to Korangi: the distance 11 that the
  query returns is the least weight of a simple path, added up either way.
\<close>

theorem dijkstra_distance_is_minimum_witness:
  "wf_graph seed_graph \<and> store_inv seed_graph \<and>
   reachable seed_graph ''Jauhar'' ''Korangi'' \<and>
   least_weight seed_graph ''Jauhar'' ''Korangi'' (Fin 11) \<and>
   least_real_weight seed_graph ''Jauhar'' ''Korangi'' 11"
proof -
  from dijkstra_distance_is_minimum [OF wf_seed_graph store_inv_seed_graph seed_keys(1,2)
      reachable_seed_korangi]
  obtain p d where
    "dijkstra_shortest_path seed_graph ''Jauhar'' ''Korangi'' = Some (Inr (p, d))"
    "least_weight seed_graph ''Jauhar'' ''Korangi'' d"
    "\<forall>x. whole_weights seed_graph \<longrightarrow> d = Fin x \<longrightarrow> x < 2 ^ 53 \<longrightarrow>
       least_real_weight seed_graph ''Jauhar'' ''Korangi'' x" by blast
  with seed_jauhar_korangi whole_weights_seed_graph
  have "least_weight seed_graph ''Jauhar'' ''Korangi'' (Fin 11)"
    "least_real_weight seed_graph ''Jauhar'' ''Korangi'' 11" by simp_all
  with wf_seed_graph store_inv_seed_graph reachable_seed_korangi show ?thesis by blast
qed

text \<open>
  Claim C6 says that the outcome for an unreachable destination carries no path. On
  \<open>isolated_graph\<close> the place \<open>Z\<close> has no route; the query from \<open>A\<close> to \<open>Z\<close> returns the
  path \<open>[Z]\<close>, which is not empty, with the infinite distance.
\<close>

theorem no_path_outcome_counterexample:
  "''A'' \<in> set (keys isolated_graph) \<and> ''Z'' \<in> set (keys isolated_graph) \<and>
   \<not> reachable isolated_graph ''A'' ''Z'' \<and>
   dijkstra_shortest_path isolated_graph ''A'' ''Z'' = Some (Inr ([''Z''], Infinity)) \<and>
   [''Z''] \<noteq> ([] :: place list)"
  using isolated_keys(1,3) unreachable_isolated_A isolated_A_Z by simp

text \<open>
  Claim C6 as amended. On a graph in which every neighbour is a place of the graph, a query
  between two places of the graph with the destination not reachable from the source
  returns the path that holds the destination alone, not an empty one, together with the
  infinite distance, whatever the distances of the routes are. When no distance is
  negative, every query between two places of the graph returns a path and a distance,
  never a \<^verbatim>\<open>KeyError\<close>, and the path is not empty and ends in the destination. So an empty
  path never reports a missing route, and a finite distance is returned for a reachable
  destination only.
\<close>

theorem no_path_outcome:
  assumes cl: "closed_refs g"
    and s: "source \<in> set (keys g)" and t: "destination \<in> set (keys g)"
  shows "(\<not> reachable g source destination \<longrightarrow>
            dijkstra_shortest_path g source destination = Some (Inr ([destination], Infinity))) \<and>
         (nonneg g \<longrightarrow>
            (\<exists>p d. dijkstra_shortest_path g source destination = Some (Inr (p, d)) \<and>
               p \<noteq> [] \<and> last p = destination))"
proof (intro conjI impI)
  assume "\<not> reachable g source destination"
  with cl s t show "dijkstra_shortest_path g source destination =
      Some (Inr ([destination], Infinity))"
    by (rule dijkstra_unreached_general)
next
  assume nn: "nonneg g"
  show "\<exists>p d. dijkstra_shortest_path g source destination = Some (Inr (p, d)) \<and>
      p \<noteq> [] \<and> last p = destination"
  proof (cases "reachable g source destination")
    case True
    from dijkstra_reached [OF nn cl s True] obtain p e where
      p: "dijkstra_shortest_path g source destination = Some (Inr (p, e))"
        "e < Infinity \<longrightarrow> walk g source p e \<and> distinct p \<and> last p = destination"
        "e = Infinity \<longrightarrow> p = [destination]" by blast
    have "p \<noteq> [] \<and> last p = destination"
    proof (cases "e < Infinity")
      case True
      with p(2) walk_nonempty [of g source p e] show ?thesis by simp
    next
      case False
      with p(3) show ?thesis by (simp add: not_less_Infinity)
    qed
    with p(1) show ?thesis by blast
  next
    case False
    from dijkstra_unreached [OF nn cl s t False] show ?thesis by simp
  qed
qed

text \<open>The amended claim C6 on \<open>isolated_graph\<close>, from \<open>A\<close> to \<open>Z\<close>.\<close>

theorem no_path_outcome_witness:
  "closed_refs isolated_graph \<and>
   ''A'' \<in> set (keys isolated_graph) \<and> ''Z'' \<in> set (keys isolated_graph) \<and>
   \<not> reachable isolated_graph ''A'' ''Z'' \<and> nonneg isolated_graph \<and>
   dijkstra_shortest_path isolated_graph ''A'' ''Z'' = Some (Inr ([''Z''], Infinity)) \<and>
   (\<exists>p d. dijkstra_shortest_path isolated_graph ''A'' ''Z'' = Some (Inr (p, d)) \<and>
      p \<noteq> [] \<and> last p = ''Z'')"
  using no_path_outcome [OF closed_refs_isolated_graph isolated_keys(1,3)]
    nonneg_isolated_graph closed_refs_isolated_graph isolated_keys(1,3) unreachable_isolated_A
  by blast

text \<open>
  Claim C7. On a graph that has the store's invariants (symmetric, no negative weight, every
  neighbour a place of the graph), the query from a place \<open>x\<close> of the graph to itself
  returns the path \<open>[x]\<close> and the distance 0.
\<close>

theorem reflexive_query:
  assumes "store_inv g" and "x \<in> set (keys g)"
  shows "dijkstra_shortest_path g x x = Some (Inr ([x], Fin 0))"
proof -
  from assms(1) have nn: "nonneg g" and cl: "closed_refs g" unfolding store_inv_def by blast+
  from dijkstra_run [OF nn cl assms(2)] obtain s S where
    run: "main_loop g (init_state g x) = Some (Inr s)" and inv: "dinv g x S S s" by blast
  from final_start [OF inv] show ?thesis
    unfolding dijkstra_shortest_path_def by (simp add: run)
qed

text \<open>Claim C7 at the seed graph and the place Malir.\<close>

theorem reflexive_query_witness:
  "store_inv seed_graph \<and> ''Malir'' \<in> set (keys seed_graph) \<and>
   dijkstra_shortest_path seed_graph ''Malir'' ''Malir'' = Some (Inr ([''Malir''], Fin 0))"
  using reflexive_query [OF store_inv_seed_graph seed_keys(3)] store_inv_seed_graph seed_keys(3)
  by blast

text \<open>
  Claim C8. On a graph without negative weights, with both places of the query among its
  keys, the query ends: the \<^verbatim>\<open>while queue\<close> loop returns, with the final state or with a
  \<^verbatim>\<open>KeyError\<close>; from a final state the loop that walks the predecessors back returns the
  path; when every neighbour is a place of the graph, both loops run to their end without
  an exception; and in every case \<^verbatim>\<open>dijkstra_shortest_path\<close> returns.
\<close>

theorem query_terminates:
  assumes nn: "nonneg g" and st: "start \<in> set (keys g)" and en: "end_node \<in> set (keys g)"
  shows "(\<exists>r. main_loop g (init_state g start) = Some r) \<and>
         (\<forall>s. main_loop g (init_state g start) = Some (Inr s) \<longrightarrow>
            (\<exists>p. walk_back (previous_nodes s) (Some end_node) [] = Some (Inr p))) \<and>
         (closed_refs g \<longrightarrow>
            (\<exists>s p. main_loop g (init_state g start) = Some (Inr s) \<and>
               walk_back (previous_nodes s) (Some end_node) [] = Some (Inr p))) \<and>
         (\<exists>res. dijkstra_shortest_path g start end_node = Some res)"
proof -
  from main_loop_total [OF nn dinv_init [OF st]]
  obtain r where r: "main_loop g (init_state g start) = Some r" "loop_done g start r" by blast
  have wb: "\<exists>p. walk_back (previous_nodes s) (Some end_node) [] = Some (Inr p) \<and>
      (\<exists>dv. distances s end_node = Some dv)"
    if "r = Inr s" for s
  proof -
    from r(2) that obtain S where inv: "dinv g start S S s" unfolding loop_done_def by blast
    with en obtain dv where dv: "distances s end_node = Some dv"
      unfolding dinv_def inv_dom_def by blast
    show ?thesis
    proof (cases "dv < Infinity")
      case True
      with final_finite [OF inv dv] dv show ?thesis by blast
    next
      case False
      then have "dv = Infinity" by (simp add: not_less_Infinity)
      with final_infinite [OF inv] dv show ?thesis by blast
    qed
  qed
  have "\<exists>res. dijkstra_shortest_path g start end_node = Some res"
  proof (cases r)
    case (Inl e)
    with r(1) show ?thesis unfolding dijkstra_shortest_path_def by simp
  next
    case (Inr s)
    from wb [OF this] obtain p dv where
      "walk_back (previous_nodes s) (Some end_node) [] = Some (Inr p)"
      "distances s end_node = Some dv" by blast
    with r(1) Inr show ?thesis unfolding dijkstra_shortest_path_def by simp
  qed
  moreover have "\<forall>s. main_loop g (init_state g start) = Some (Inr s) \<longrightarrow>
            (\<exists>p. walk_back (previous_nodes s) (Some end_node) [] = Some (Inr p))"
    using wb r(1) by auto
  moreover have "closed_refs g \<longrightarrow>
            (\<exists>s p. main_loop g (init_state g start) = Some (Inr s) \<and>
               walk_back (previous_nodes s) (Some end_node) [] = Some (Inr p))"
  proof
    assume "closed_refs g"
    with r(2) obtain s where s: "r = Inr s" unfolding loop_done_def by (cases r) auto
    from wb [OF s] obtain p where
      "walk_back (previous_nodes s) (Some end_node) [] = Some (Inr p)" by blast
    with r(1) s show "\<exists>s p. main_loop g (init_state g start) = Some (Inr s) \<and>
               walk_back (previous_nodes s) (Some end_node) [] = Some (Inr p)" by blast
  qed
  ultimately show ?thesis using r(1) by blast
qed

text \<open>Claim C8 at the seed graph, from Jauhar to Defence.\<close>

theorem query_terminates_witness:
  "nonneg seed_graph \<and> ''Jauhar'' \<in> set (keys seed_graph) \<and>
   ''Defence'' \<in> set (keys seed_graph) \<and>
   (\<exists>r. main_loop seed_graph (init_state seed_graph ''Jauhar'') = Some r) \<and>
   (\<exists>res. dijkstra_shortest_path seed_graph ''Jauhar'' ''Defence'' = Some res)"
  using query_terminates [OF nonneg_seed_graph seed_keys(1,4)] nonneg_seed_graph seed_keys(1,4)
  by blast

text \<open>
  Claim C9. On a graph in which every neighbour is a place of the graph, with both places of
  the query among its keys, no lookup of the query misses its key: the main loop does not
  end with \<^verbatim>\<open>KeyError\<close>, and from its final state neither the walk back along
  \<^verbatim>\<open>previous_nodes\<close> nor the last read of \<^verbatim>\<open>distances[end]\<close> does. Negative weights are
  allowed here; a run that never returns raises nothing either.
\<close>

theorem no_missing_key:
  assumes cl: "closed_refs g" and st: "start \<in> set (keys g)" and en: "end_node \<in> set (keys g)"
  shows "main_loop g (init_state g start) \<noteq> Some (Inl KeyError) \<and>
         (\<forall>s. main_loop g (init_state g start) = Some (Inr s) \<longrightarrow>
            walk_back (previous_nodes s) (Some end_node) [] \<noteq> Some (Inl KeyError) \<and>
            distances s end_node \<noteq> None) \<and>
         dijkstra_shortest_path g start end_node \<noteq> Some (Inl KeyError)"
proof -
  have ml: "\<exists>s'. r = Inr s' \<and> inv_keys g s'"
    if "main_loop g (init_state g start) = Some r" for r
    using main_loop_keys [OF that] cl inv_keys_init [OF st] by blast
  have wb: "walk_back (previous_nodes s) (Some end_node) [] \<noteq> Some (Inl KeyError) \<and>
            distances s end_node \<noteq> None"
    if run: "main_loop g (init_state g start) = Some (Inr s)" for s
  proof -
    from ml [OF run] have inv: "inv_keys g s" by simp
    then have dom: "dom (previous_nodes s) = set (keys g)" "dom (distances s) = set (keys g)"
      unfolding inv_keys_def inv_dom_def by blast+
    have "\<forall>x u. previous_nodes s x = Some (Some u) \<longrightarrow> u \<in> dom (previous_nodes s)"
      using inv dom unfolding inv_keys_def by blast
    moreover have "\<forall>c. Some end_node = Some c \<longrightarrow> c \<in> dom (previous_nodes s)"
      using en dom by simp
    ultimately have "walk_back (previous_nodes s) (Some end_node) [] \<noteq> Some (Inl KeyError)"
      using walk_back_keys [of "previous_nodes s" "Some end_node" "[]" "Inl KeyError"] by blast
    moreover have "distances s end_node \<noteq> None" using en dom by blast
    ultimately show ?thesis by blast
  qed
  have m: "main_loop g (init_state g start) \<noteq> Some (Inl KeyError)"
    using ml by blast
  have "dijkstra_shortest_path g start end_node \<noteq> Some (Inl KeyError)"
  proof (cases "main_loop g (init_state g start)")
    case None
    then show ?thesis unfolding dijkstra_shortest_path_def by simp
  next
    case (Some r)
    from ml [OF this] obtain s where r: "r = Inr s" by blast
    from wb Some r have w: "walk_back (previous_nodes s) (Some end_node) [] \<noteq> Some (Inl KeyError)"
      "distances s end_node \<noteq> None" by blast+
    show ?thesis
    proof (cases "walk_back (previous_nodes s) (Some end_node) []")
      case None
      with Some r show ?thesis unfolding dijkstra_shortest_path_def by simp
    next
      case wbs: (Some rp)
      with w(1) obtain p where "rp = Inr p" by (cases rp) (auto, metis error.exhaust)
      with Some r wbs w(2) show ?thesis unfolding dijkstra_shortest_path_def by auto
    qed
  qed
  with m wb show ?thesis by blast
qed

text \<open>Claim C9 at the seed graph, from Jauhar to Korangi.\<close>

theorem no_missing_key_witness:
  "closed_refs seed_graph \<and> ''Jauhar'' \<in> set (keys seed_graph) \<and>
   ''Korangi'' \<in> set (keys seed_graph) \<and>
   dijkstra_shortest_path seed_graph ''Jauhar'' ''Korangi'' \<noteq> Some (Inl KeyError)"
  using no_missing_key [OF closed_refs_seed_graph seed_keys(1,2)] closed_refs_seed_graph
    seed_keys(1,2)
  by blast

text \<open>
  Claim C10. On a graph in which every neighbour is a place of the graph, whatever the
  distances of its routes are, the query to a place of the graph that is not reachable from
  the source, which is then another place than the source, returns the one-element path
  holding the destination, together with the infinite distance. The main loop ends on
  every such graph, also when a distance is negative: every relaxation lowers a distance,
  and there are finitely many doubles.
\<close>

theorem unreachable_query:
  assumes "closed_refs g"
    and "source \<in> set (keys g)" and "destination \<in> set (keys g)"
    and "\<not> reachable g source destination"
  shows "dijkstra_shortest_path g source destination = Some (Inr ([destination], Infinity))"
  using assms by (rule dijkstra_unreached_general)

text \<open>
  Claim C10 on \<open>negative_graph\<close>, from \<open>A\<close> to \<open>Z\<close>: the two places of the route of
  distance \<open>-1\<close> relax each other until the sums stop falling, and \<open>Z\<close> keeps the infinite
  distance.
\<close>

theorem unreachable_query_witness:
  "closed_refs negative_graph \<and>
   ''A'' \<in> set (keys negative_graph) \<and> ''Z'' \<in> set (keys negative_graph) \<and>
   \<not> reachable negative_graph ''A'' ''Z'' \<and>
   dijkstra_shortest_path negative_graph ''A'' ''Z'' = Some (Inr ([''Z''], Infinity))"
  using unreachable_query [OF closed_refs_negative_graph negative_keys unreachable_negative]
    closed_refs_negative_graph negative_keys unreachable_negative
  by blast

end
